theory Spec2Isabelle
  imports Main "HOL-Library.Sublist"
begin

section \<open>Python strings\<close>

text \<open>
  A Python \<^verbatim>\<open>str\<close> is a sequence of Unicode code points. A code point is a natural
  number here, so that the character classes of the regular expression and of
  \<^verbatim>\<open>str.strip\<close> are the ones Python applies to text, beyond ASCII too.
  \<open>py\<close> writes an ASCII literal.
\<close>

type_synonym str = "nat list"

definition py :: "string \<Rightarrow> str" where
  "py s = map of_char s"

text \<open>
  \<^verbatim>\<open>str.isspace\<close> of one character, which is also what \<^verbatim>\<open>\s\<close> matches in a
  \<^verbatim>\<open>str\<close> pattern: U+0009..U+000D, U+001C..U+0020, U+0085, U+00A0, U+1680,
  U+2000..U+200A, U+2028, U+2029, U+202F, U+205F, U+3000.
\<close>

definition is_space :: "nat \<Rightarrow> bool" where
  "is_space c =
     ((9 \<le> c \<and> c \<le> 13) \<or> (28 \<le> c \<and> c \<le> 32) \<or> c = 133 \<or> c = 160 \<or> c = 5760 \<or>
      (8192 \<le> c \<and> c \<le> 8202) \<or> c = 8232 \<or> c = 8233 \<or> c = 8239 \<or> c = 8287 \<or>
      c = 12288)"

text \<open>\<^verbatim>\<open>s.strip()\<close>: whitespace removed at both ends.\<close>

definition str_strip :: "str \<Rightarrow> str" where
  "str_strip s = rev (dropWhile is_space (rev (dropWhile is_space s)))"

text \<open>\<^verbatim>\<open>s.split(sep)\<close> for a one-character separator: never an empty list.\<close>

fun str_split :: "nat \<Rightarrow> str \<Rightarrow> str list" where
  "str_split sep [] = [[]]"
| "str_split sep (c # cs) =
     (if c = sep then [] # str_split sep cs
      else (case str_split sep cs of
              [] \<Rightarrow> [[c]]
            | seg # segs \<Rightarrow> (c # seg) # segs))"

text \<open>\<^verbatim>\<open>sep.join(xs)\<close>.\<close>

fun str_join :: "str \<Rightarrow> str list \<Rightarrow> str" where
  "str_join sep [] = []"
| "str_join sep [x] = x"
| "str_join sep (x # y # ys) = x @ sep @ str_join sep (y # ys)"

text \<open>The decimal digits of a number, as \<^verbatim>\<open>str(n)\<close> and the format \<^verbatim>\<open>{n}\<close> give them.\<close>

fun str_of_nat :: "nat \<Rightarrow> str" where
  "str_of_nat n = (if n < 10 then [48 + n] else str_of_nat (n div 10) @ [48 + n mod 10])"

declare str_of_nat.simps [simp del]

text \<open>The format \<^verbatim>\<open>{s:<w}\<close>: left-justified, padded with spaces to width \<open>w\<close> at least.\<close>

definition ljust :: "nat \<Rightarrow> str \<Rightarrow> str" where
  "ljust w s = s @ replicate (w - length s) 32"

section \<open>Regular expressions\<close>

text \<open>
  The fragment of Python's \<^verbatim>\<open>re\<close> that the program's pattern uses, with the
  backtracking semantics of the library: matching a pattern from a state gives the
  list of the states it can end in, in the order the engine tries them (a greedy
  repetition tries the longest run first), and the first one that lets the rest of
  the pattern match wins. A state is the offset in the subject, the text that is
  left, and the groups captured so far (the most recent first).
\<close>

datatype cclass = Chr nat | Range nat nat | Whitespace | Dot

fun accepts :: "cclass \<Rightarrow> nat \<Rightarrow> bool" where
  "accepts (Chr a) c = (c = a)"
| "accepts (Range lo hi) c = (lo \<le> c \<and> c \<le> hi)"
| "accepts Whitespace c = is_space c"
| "accepts Dot c = (c \<noteq> 10)"

datatype regex =
    Bol
  | One cclass
  | Opt cclass
  | Star cclass
  | Plus cclass
  | Alt regex regex
  | Seq regex regex
  | Group string regex

type_synonym mstate = "nat \<times> str \<times> (string \<times> str) list"

fun step :: "cclass \<Rightarrow> mstate \<Rightarrow> mstate list" where
  "step c (pos, [], caps) = []"
| "step c (pos, x # xs, caps) = (if accepts c x then [(Suc pos, xs, caps)] else [])"

fun repeat :: "cclass \<Rightarrow> mstate \<Rightarrow> mstate list" where
  "repeat c (pos, [], caps) = [(pos, [], caps)]"
| "repeat c (pos, x # xs, caps) =
     (if accepts c x then repeat c (Suc pos, xs, caps) else []) @ [(pos, x # xs, caps)]"

fun run :: "regex \<Rightarrow> mstate \<Rightarrow> mstate list" where
  "run Bol (pos, rest, caps) = (if pos = 0 then [(pos, rest, caps)] else [])"
| "run (One c) st = step c st"
| "run (Opt c) st = step c st @ [st]"
| "run (Star c) st = repeat c st"
| "run (Plus c) st = concat (map (repeat c) (step c st))"
| "run (Alt r1 r2) st = run r1 st @ run r2 st"
| "run (Seq r1 r2) st = concat (map (run r2) (run r1 st))"
| "run (Group g r) (pos, rest, caps) =
     map (\<lambda>(pos', rest', caps'). (pos', rest', (g, take (pos' - pos) rest) # caps'))
       (run r (pos, rest, caps))"

text \<open>
  \<^verbatim>\<open>regex.search(text)\<close>: the first offset at which the pattern matches, and the
  groups of the first match there.
\<close>

fun search_from :: "regex \<Rightarrow> nat \<Rightarrow> str \<Rightarrow> (string \<times> str) list option" where
  "search_from r pos [] =
     (case run r (pos, [], []) of [] \<Rightarrow> None | st # _ \<Rightarrow> Some (snd (snd st)))"
| "search_from r pos (x # xs) =
     (case run r (pos, x # xs, []) of
        [] \<Rightarrow> search_from r (Suc pos) xs
      | st # _ \<Rightarrow> Some (snd (snd st)))"

definition re_search :: "regex \<Rightarrow> str \<Rightarrow> (string \<times> str) list option" where
  "re_search r text = search_from r 0 text"

text \<open>\<^verbatim>\<open>m[name]\<close> for a match \<open>m\<close>.\<close>

definition group :: "(string \<times> str) list \<Rightarrow> string \<Rightarrow> str" where
  "group m name = (case map_of m name of None \<Rightarrow> [] | Some v \<Rightarrow> v)"

text \<open>
  The pattern of \<^verbatim>\<open>search_file\<close>:
  \<^verbatim>\<open>^\s+(//|#|/?\*)\s+(?P<tag>@[A-Z]+) (?P<text>.*)\<close>
  (47 is \<^verbatim>\<open>/\<close>, 35 \<^verbatim>\<open>#\<close>, 42 \<^verbatim>\<open>*\<close>, 64 \<^verbatim>\<open>@\<close>, 65 to 90 \<^verbatim>\<open>A\<close> to \<^verbatim>\<open>Z\<close>, 32 the
  space).
\<close>

definition comment_open :: regex where
  "comment_open =
     Group ''1'' (Alt (Seq (One (Chr 47)) (One (Chr 47)))
                 (Alt (One (Chr 35))
                      (Seq (Opt (Chr 47)) (One (Chr 42)))))"

definition tag_group :: regex where
  "tag_group = Group ''tag'' (Seq (One (Chr 64)) (Plus (Range 65 90)))"

definition text_group :: regex where
  "text_group = Group ''text'' (Star Dot)"

definition todo_regex :: regex where
  "todo_regex =
     Seq Bol (Seq (Plus Whitespace) (Seq comment_open (Seq (Plus Whitespace)
       (Seq tag_group (Seq (One (Chr 32)) text_group)))))"

text \<open>The pattern from the first \<^verbatim>\<open>\s+\<close> on, and what is left of it after each piece.\<close>

definition after_space :: regex where
  "after_space = Seq (One (Chr 32)) text_group"

definition after_ws2 :: regex where
  "after_ws2 = Seq tag_group after_space"

definition after_open :: regex where
  "after_open = Seq (Plus Whitespace) after_ws2"

definition after_ws1 :: regex where
  "after_ws1 = Seq comment_open after_open"

definition after_bol :: regex where
  "after_bol = Seq (Plus Whitespace) after_ws1"

text \<open>
  The lines the pattern is meant for, said without the engine: whitespace, one of
  the four comment openers, whitespace, \<^verbatim>\<open>@\<close> and capital letters, one space, and
  the text, which ends before the first line feed.
\<close>

definition comment_tokens :: "str list" where
  "comment_tokens = [[47, 47], [35], [42], [47, 42]]"

definition annotated :: "str \<Rightarrow> str \<Rightarrow> str \<Rightarrow> bool" where
  "annotated line tag text \<longleftrightarrow>
     (\<exists>ws1 tok ws2 letters rest.
        line = ws1 @ tok @ ws2 @ 64 # letters @ 32 # rest
      \<and> ws1 \<noteq> [] \<and> list_all is_space ws1
      \<and> tok \<in> set comment_tokens
      \<and> ws2 \<noteq> [] \<and> list_all is_space ws2
      \<and> letters \<noteq> [] \<and> list_all (\<lambda>c. 65 \<le> c \<and> c \<le> 90) letters
      \<and> tag = 64 # letters
      \<and> text = takeWhile (\<lambda>c. c \<noteq> 10) rest)"

text \<open>
  The form of a matching line in the words of the specification, which has a
  single whitespace character between the comment opener and the tag.
\<close>

definition spec_line_form :: "str \<Rightarrow> bool" where
  "spec_line_form line \<longleftrightarrow>
     (\<exists>ws1 tok w letters rest.
        line = ws1 @ tok @ w # 64 # letters @ 32 # rest
      \<and> ws1 \<noteq> [] \<and> list_all is_space ws1
      \<and> tok \<in> set comment_tokens
      \<and> is_space w
      \<and> letters \<noteq> [] \<and> list_all (\<lambda>c. 65 \<le> c \<and> c \<le> 90) letters)"

section \<open>Paths\<close>

text \<open>
  A \<^verbatim>\<open>pathlib\<close> path on POSIX: its root (empty, \<^verbatim>\<open>/\<close> or \<^verbatim>\<open>//\<close>) and its
  components.
\<close>

datatype path = Path (root: str) (parts: "str list")

text \<open>\<^verbatim>\<open>Path(s)\<close>: empty and \<^verbatim>\<open>.\<close> components are dropped.\<close>

definition splitroot :: "str \<Rightarrow> str" where
  "splitroot s =
     (if take 1 s \<noteq> [47] then []
      else if take 1 (drop 1 s) \<noteq> [47] \<or> take 1 (drop 2 s) = [47] then [47]
      else [47, 47])"

definition path_of_str :: "str \<Rightarrow> path" where
  "path_of_str s = Path (splitroot s) (filter (\<lambda>x. x \<noteq> [] \<and> x \<noteq> [46]) (str_split 47 s))"

text \<open>\<^verbatim>\<open>str(p)\<close>.\<close>

definition str_of_path :: "path \<Rightarrow> str" where
  "str_of_path p =
     (if root p = [] \<and> parts p = [] then [46] else root p @ str_join [47] (parts p))"

text \<open>\<^verbatim>\<open>p / name\<close> for a single component, and the paths \<^verbatim>\<open>iterdir\<close> makes.\<close>

definition child :: "path \<Rightarrow> str \<Rightarrow> path" where
  "child p name = Path (root p) (parts p @ [name])"

text \<open>\<^verbatim>\<open>p.parents\<close>: the nearest first.\<close>

definition parents :: "path \<Rightarrow> path list" where
  "parents p = map (\<lambda>k. Path (root p) (take k (parts p))) (rev [0..<length (parts p)])"

section \<open>Errors, files and the file system\<close>

datatype exn =
    SystemExit nat
  | FileNotFoundError
  | PermissionError
  | NotADirectoryError
  | IsADirectoryError
  | OSError
  | ValueError

text \<open>\<^verbatim>\<open>p.relative_to(other)\<close>.\<close>

definition relative_to :: "path \<Rightarrow> path \<Rightarrow> exn + path" where
  "relative_to p other =
     (if other = p \<or> other \<in> set (parents p)
      then Inr (Path [] (drop (length (parts other)) (parts p)))
      else Inl ValueError)"

text \<open>
  Iterating over a file opened as text yields its lines, numbered by
  \<^verbatim>\<open>enumerate\<close>, until the decoder meets bytes that are no text and raises
  \<^verbatim>\<open>UnicodeDecodeError\<close>.
\<close>

datatype read_item = Line str | Undecodable

text \<open>
  What a directory entry is. A symbolic link carries what it resolves to; the
  operations below follow it, as \<^verbatim>\<open>is_dir\<close>, \<^verbatim>\<open>is_file\<close>, \<^verbatim>\<open>exists\<close>,
  \<^verbatim>\<open>iterdir\<close> and \<^verbatim>\<open>open\<close> do.
\<close>

datatype node =
    File "read_item list"
  | Unreadable
  | Dir "(str \<times> node) list"
  | Locked
  | Link node
  | Broken
  | Special

fun is_dir :: "node \<Rightarrow> bool" where
  "is_dir (Dir items) = True"
| "is_dir Locked = True"
| "is_dir (Link t) = is_dir t"
| "is_dir n = False"

fun is_file :: "node \<Rightarrow> bool" where
  "is_file (File items) = True"
| "is_file Unreadable = True"
| "is_file (Link t) = is_file t"
| "is_file n = False"

fun node_exists :: "node \<Rightarrow> bool" where
  "node_exists Broken = False"
| "node_exists (Link t) = node_exists t"
| "node_exists n = True"

fun iterdir :: "path \<Rightarrow> node \<Rightarrow> exn + (path \<times> node) list" where
  "iterdir p (Dir items) = Inr (map (\<lambda>(name, n). (child p name, n)) items)"
| "iterdir p Locked = Inl PermissionError"
| "iterdir p (Link t) = iterdir p t"
| "iterdir p Broken = Inl FileNotFoundError"
| "iterdir p n = Inl NotADirectoryError"

fun node_open :: "node \<Rightarrow> exn + read_item list" where
  "node_open (File items) = Inr items"
| "node_open Unreadable = Inl PermissionError"
| "node_open (Dir items) = Inl IsADirectoryError"
| "node_open Locked = Inl IsADirectoryError"
| "node_open (Link t) = node_open t"
| "node_open Broken = Inl FileNotFoundError"
| "node_open Special = Inl OSError"

text \<open>
  What a link resolves to in the end, and the entry that a list of names leads to
  from an entry, through directories and links to directories.
\<close>

fun resolve :: "node \<Rightarrow> node" where
  "resolve (Link t) = resolve t"
| "resolve n = n"

fun descend :: "node \<Rightarrow> str list \<Rightarrow> node option" where
  "descend n [] = Some n"
| "descend n (name # names) =
     (case resolve n of
        Dir items \<Rightarrow> (case map_of items name of None \<Rightarrow> None | Some c \<Rightarrow> descend c names)
      | _ \<Rightarrow> None)"

text \<open>
  What a run of the program sees of its process and of the machine: the working
  directory, the home directory, the value of \<^verbatim>\<open>TODO_PATH\<close> when it is set, and
  the file system, which gives for a path string the entry it names, with all that
  is below it.
\<close>

record world =
  cwd :: path
  home :: path
  todo_path :: "str option"
  fs :: "str \<Rightarrow> node option"

text \<open>\<^verbatim>\<open>os.path.exists(s)\<close>; the empty string names nothing.\<close>

definition os_path_exists :: "world \<Rightarrow> str \<Rightarrow> bool" where
  "os_path_exists w s =
     (s \<noteq> [] \<and> (case fs w s of None \<Rightarrow> False | Some n \<Rightarrow> node_exists n))"

definition path_exists :: "world \<Rightarrow> path \<Rightarrow> bool" where
  "path_exists w p = os_path_exists w (str_of_path p)"

definition open_file :: "world \<Rightarrow> path \<Rightarrow> exn + read_item list" where
  "open_file w p =
     (case fs w (str_of_path p) of None \<Rightarrow> Inl FileNotFoundError | Some n \<Rightarrow> node_open n)"

section \<open>The line matcher\<close>

text \<open>The dataclass \<^verbatim>\<open>SearchResult\<close>; a todo is (line, tag, text).\<close>

record search_result =
  file' :: path
  todos :: "(nat \<times> str \<times> str) list"

text \<open>
  The loop of \<^verbatim>\<open>search_file\<close> over the enumerated lines; \<open>None\<close> is the
  \<^verbatim>\<open>return None\<close> of the handler of \<^verbatim>\<open>UnicodeDecodeError\<close>.
\<close>

fun scan :: "read_item list \<Rightarrow> nat \<Rightarrow> (nat \<times> str \<times> str) list \<Rightarrow> (nat \<times> str \<times> str) list option" where
  "scan [] line acc = Some acc"
| "scan (Undecodable # rest) line acc = None"
| "scan (Line text # rest) line acc =
     (case re_search todo_regex text of
        None \<Rightarrow> scan rest (line + 1) acc
      | Some m \<Rightarrow> scan rest (line + 1) (acc @ [(line, group m ''tag'', str_strip (group m ''text''))]))"

text \<open>
  \<^verbatim>\<open>search_file\<close>. The file is opened outside the \<^verbatim>\<open>try\<close>, and the handler
  catches \<^verbatim>\<open>UnicodeDecodeError\<close> only: an error of \<^verbatim>\<open>open\<close> is raised to the caller.
\<close>

definition search_file :: "world \<Rightarrow> path \<Rightarrow> exn + search_result option" where
  "search_file w p =
     (case open_file w p of
        Inl e \<Rightarrow> Inl e
      | Inr items \<Rightarrow>
          (case scan items 1 [] of
             None \<Rightarrow> Inr None
           | Some found \<Rightarrow> Inr (Some \<lparr>file' = p, todos = found\<rparr>)))"

text \<open>
  What a todo \<open>(k, tag, body)\<close> has to do with the lines read, numbered from \<open>n\<close>:
  \<open>k\<close> is the number of a line that has the form above with this tag, and the body
  is its text, stripped.
\<close>

definition found_in :: "read_item list \<Rightarrow> nat \<Rightarrow> nat \<times> str \<times> str \<Rightarrow> bool" where
  "found_in items n t \<longleftrightarrow>
     (case t of (k, tag, body) \<Rightarrow>
        n \<le> k \<and> k < n + length items
        \<and> (\<exists>line raw. items ! (k - n) = Line line \<and> annotated line tag raw
              \<and> body = str_strip raw))"

section \<open>The file enumerator\<close>

text \<open>
  \<^verbatim>\<open>find_files\<close>: the inner function \<^verbatim>\<open>search\<close> and its loop over
  \<^verbatim>\<open>p.iterdir()\<close>, with the list \<^verbatim>\<open>res\<close> it appends to passed along.
\<close>

fun weight :: "node \<Rightarrow> nat" where
  "weight (Dir items) = Suc (sum_list (map (\<lambda>(name, n). weight n) items))"
| "weight (Link t) = Suc (weight t)"
| "weight n = 1"

lemma weight_pos: "0 < weight n"
  by (cases n) auto

lemma iterdir_weight:
  "iterdir p n = Inr items \<Longrightarrow> sum_list (map (\<lambda>(q, c). weight c) items) < weight n"
proof (induction n arbitrary: items)
  case (Dir xs)
  have "map (\<lambda>(q, c). weight c) (map (\<lambda>(name, n). (child p name, n)) xs)
        = map (\<lambda>(name, n). weight n) xs"
    by (induction xs) auto
  with Dir.prems show ?case by auto
next
  case (Link t)
  then show ?case by fastforce
qed auto

function search :: "path \<times> node \<Rightarrow> path list \<Rightarrow> exn + path list"
  and search_items :: "(path \<times> node) list \<Rightarrow> path list \<Rightarrow> exn + path list" where
  "search (p, n) res =
     (case iterdir p n of
        Inl e \<Rightarrow> Inl e
      | Inr items \<Rightarrow> search_items items res)"
| "search_items [] res = Inr res"
| "search_items ((item, n) # rest) res =
     (if is_dir n then
        (case search (item, n) res of
           Inl e \<Rightarrow> Inl e
         | Inr res' \<Rightarrow> search_items rest res')
      else if is_file n then search_items rest (res @ [item])
      else search_items rest res)"
  by pat_completeness auto
termination
proof (relation "measure (\<lambda>x. case x of
          Inl ((p, n), res) \<Rightarrow> 2 * weight n
        | Inr (items, res) \<Rightarrow> 2 * sum_list (map (\<lambda>(q, c). weight c) items) + 1)")
  show "wf (measure (\<lambda>x. case x of
          Inl ((p, n), res) \<Rightarrow> 2 * weight n
        | Inr (items, res) \<Rightarrow> 2 * sum_list (map (\<lambda>(q, c). weight c) items) + 1))"
    by simp
next
  fix p n res items
  assume "iterdir p n = Inr items"
  from iterdir_weight [OF this]
  show "(Inr (items, res), Inl ((p, n), res)) \<in> measure (\<lambda>x. case x of
          Inl ((p, n), res) \<Rightarrow> 2 * weight n
        | Inr (items, res) \<Rightarrow> 2 * sum_list (map (\<lambda>(q, c). weight c) items) + 1)"
    by simp
qed (simp_all add: weight_pos)

definition find_files :: "world \<Rightarrow> path \<Rightarrow> exn + path list" where
  "find_files w directory =
     (case fs w (str_of_path directory) of
        None \<Rightarrow> Inl FileNotFoundError
      | Some n \<Rightarrow> search (directory, n) [])"

text \<open>
  For the statements about \<^verbatim>\<open>find_files\<close>. \<open>files_below\<close> is the list that the walk
  builds when nothing raises. \<open>listable\<close> says that the entry is a directory, or a
  link to one, and that it and the directories the walk enters from it can be listed.
  \<open>wf_names\<close> says that no directory holds two entries of the same name.
  \<open>reaches n names m\<close> says that the names lead from the entry \<open>n\<close> down to the
  entry \<open>m\<close>, each step going into a directory or a link to a directory.
\<close>

fun files_below :: "path \<Rightarrow> node \<Rightarrow> path list" where
  "files_below p (Dir items) =
     concat (map (\<lambda>item. if is_dir (snd item) then files_below (child p (fst item)) (snd item)
                         else if is_file (snd item) then [child p (fst item)] else []) items)"
| "files_below p (Link t) = files_below p t"
| "files_below p n = []"

fun listable :: "node \<Rightarrow> bool" where
  "listable (Dir items) = list_all (\<lambda>item. is_dir (snd item) \<longrightarrow> listable (snd item)) items"
| "listable (Link t) = listable t"
| "listable n = False"

fun wf_names :: "node \<Rightarrow> bool" where
  "wf_names (Dir items) =
     (distinct (map fst items) \<and> list_all (\<lambda>item. wf_names (snd item)) items)"
| "wf_names (Link t) = wf_names t"
| "wf_names n = True"

inductive reaches :: "node \<Rightarrow> str list \<Rightarrow> node \<Rightarrow> bool" where
  here: "reaches n [] n"
| down: "resolve n = Dir items \<Longrightarrow> (name, c) \<in> set items \<Longrightarrow> reaches c names m
         \<Longrightarrow> reaches n (name # names) m"

definition item_files :: "path \<times> node \<Rightarrow> path list" where
  "item_files item =
     (if is_dir (snd item) then files_below (fst item) (snd item)
      else if is_file (snd item) then [fst item] else [])"

section \<open>The path resolver\<close>

text \<open>\<^verbatim>\<open>bail\<close>: the text written to the error stream and the exit raised.\<close>

definition bail :: "str \<Rightarrow> str \<times> exn" where
  "bail msg = (py ''ERROR: '' @ msg @ [10], SystemExit 1)"

definition todo_paths :: "world \<Rightarrow> str \<times> exn + path list" where
  "todo_paths w =
     (case todo_path w of
        None \<Rightarrow> Inl (bail (py ''TODO_PATH not set.''))
      | Some v \<Rightarrow> Inr (map path_of_str (filter (os_path_exists w) (str_split 58 v))))"

definition current_git_repo :: "world \<Rightarrow> path option" where
  "current_git_repo w =
     find (\<lambda>p. path_exists w (child p (py ''.git''))) (cwd w # parents (cwd w))"

text \<open>
  For the statements about the resolver: \<^verbatim>\<open>p.is_dir()\<close>, which is what "\<open>p\<close> is a
  directory" means for a path, and the directory \<open>k\<close> components deep on the way
  from the root to the working directory (the working directory itself for all its
  components, the root for none).
\<close>

definition path_is_dir :: "world \<Rightarrow> path \<Rightarrow> bool" where
  "path_is_dir w p =
     (str_of_path p \<noteq> []
      \<and> (case fs w (str_of_path p) of None \<Rightarrow> False | Some n \<Rightarrow> is_dir n))"

definition ancestor :: "world \<Rightarrow> nat \<Rightarrow> path" where
  "ancestor w k = Path (root (cwd w)) (take k (parts (cwd w)))"

section \<open>The program\<close>

text \<open>
  \<^verbatim>\<open>pool.map\<close>: the results in the order of the inputs; an exception of a worker
  is raised in the caller.
\<close>

fun pool_map :: "('a \<Rightarrow> exn + 'b) \<Rightarrow> 'a list \<Rightarrow> exn + 'b list" where
  "pool_map f [] = Inr []"
| "pool_map f (x # xs) =
     (case f x of
        Inl e \<Rightarrow> Inl e
      | Inr y \<Rightarrow> (case pool_map f xs of Inl e \<Rightarrow> Inl e | Inr ys \<Rightarrow> Inr (y # ys)))"

text \<open>\<^verbatim>\<open>SearchResult.__str__\<close>, with the home directory of the run.\<close>

definition format_todo :: "str \<Rightarrow> nat \<times> str \<times> str \<Rightarrow> str" where
  "format_todo name t =
     (case t of (line, tag, text) \<Rightarrow>
        ljust 7 tag @ [32] @ name @ [58] @ ljust 4 (str_of_nat line) @ [32] @ text)"

definition SearchResult_str :: "path \<Rightarrow> search_result \<Rightarrow> exn + str" where
  "SearchResult_str hm r =
     (case relative_to (file' r) hm of
        Inl e \<Rightarrow> Inl e
      | Inr rel \<Rightarrow> Inr (str_join [10] (map (format_todo (str_of_path rel)) (todos r))))"

text \<open>
  How a run ends: what it wrote to the two streams, its exit code, and the
  exception that ended it when one was left uncaught (the interpreter then adds a
  traceback to the error stream, which \<open>stderr\<close> leaves out).
\<close>

record outcome =
  stdout :: str
  stderr :: str
  exit_code :: nat
  uncaught :: "exn option"

definition crash :: "str \<Rightarrow> exn \<Rightarrow> outcome" where
  "crash out e = \<lparr>stdout = out, stderr = [], exit_code = 1, uncaught = Some e\<rparr>"

text \<open>The loop \<^verbatim>\<open>for res in results: print(res)\<close>, from what is printed so far.\<close>

fun print_results :: "path \<Rightarrow> search_result list \<Rightarrow> str \<Rightarrow> outcome" where
  "print_results hm [] out = \<lparr>stdout = out, stderr = [], exit_code = 0, uncaught = None\<rparr>"
| "print_results hm (res # rest) out =
     (case SearchResult_str hm res of
        Inl e \<Rightarrow> crash out e
      | Inr s \<Rightarrow> print_results hm rest (out @ s @ [10]))"

text \<open>The results \<^verbatim>\<open>main\<close> keeps: \<^verbatim>\<open>if res and res.todos\<close>.\<close>

definition retained :: "search_result option list \<Rightarrow> search_result list" where
  "retained rs = [res. Some res \<leftarrow> rs, todos res \<noteq> []]"

definition scan_roots :: "world \<Rightarrow> str \<times> exn + path list" where
  "scan_roots w =
     (case current_git_repo w of
        Some repo \<Rightarrow> Inr [repo]
      | None \<Rightarrow> todo_paths w)"

text \<open>
  The second half of \<^verbatim>\<open>main\<close>, from the candidate files on: they are searched,
  the results with todos are kept and printed.
\<close>

definition report :: "world \<Rightarrow> path list \<Rightarrow> outcome" where
  "report w files =
     (case pool_map (search_file w) files of
        Inl e \<Rightarrow> crash [] e
      | Inr rs \<Rightarrow> print_results (home w) (retained rs) [])"

definition main :: "world \<Rightarrow> outcome" where
  "main w =
     (case scan_roots w of
        Inl (msg, e) \<Rightarrow>
          \<lparr>stdout = [], stderr = msg,
           exit_code = (case e of SystemExit n \<Rightarrow> n | _ \<Rightarrow> 1), uncaught = None\<rparr>
      | Inr paths \<Rightarrow>
          (case pool_map (find_files w) paths of
             Inl e \<Rightarrow> crash [] e
           | Inr files \<Rightarrow> report w (concat files)))"

text \<open>
  For the statements about the output: whether the file of a result is the home
  directory or below it, and the lines a result with such a file gives, one for each
  todo and each ended by a line feed.
\<close>

definition under :: "path \<Rightarrow> search_result \<Rightarrow> bool" where
  "under hm r \<longleftrightarrow> root hm = root (file' r) \<and> prefix (parts hm) (parts (file' r))"

definition block :: "path \<Rightarrow> search_result \<Rightarrow> str" where
  "block hm r =
     concat (map (\<lambda>(k, tag, body).
                    tag @ replicate (7 - length tag) 32 @ [32]
                    @ str_of_path (Path [] (drop (length (parts hm)) (parts (file' r)))) @ [58]
                    @ str_of_nat k @ replicate (4 - length (str_of_nat k)) 32 @ [32]
                    @ body @ [10])
             (todos r))"

section \<open>Example worlds\<close>

text \<open>
  A file system given by the tree under \<^verbatim>\<open>/\<close>: an absolute path string names
  what its components lead to from the root, a link on the way being followed.
\<close>

definition tree_fs :: "node \<Rightarrow> str \<Rightarrow> node option" where
  "tree_fs t s = (if take 1 s = [47] then descend t (parts (path_of_str s)) else None)"

text \<open>
  A machine with the directories \<^verbatim>\<open>/a\<close>, \<^verbatim>\<open>/home/u\<close> and \<^verbatim>\<open>/work\<close> and no \<^verbatim>\<open>.git\<close>
  anywhere; the program runs in \<^verbatim>\<open>/work\<close>.
\<close>

definition plain_tree :: node where
  "plain_tree =
     Dir [(py ''a'', Dir []), (py ''home'', Dir [(py ''u'', Dir [])]), (py ''work'', Dir [])]"

definition plain_world :: "str option \<Rightarrow> world" where
  "plain_world v =
     \<lparr>cwd = Path [47] [py ''work''], home = Path [47] [py ''home'', py ''u''],
      todo_path = v, fs = tree_fs plain_tree\<rparr>"

text \<open>
  A machine with a home directory \<^verbatim>\<open>/home/u\<close> that holds the file \<^verbatim>\<open>notes.txt\<close> of
  the specification, a file without annotations and a file that is no text, with
  an annotated file outside the home directory, and with a directory that holds a
  file that cannot be opened and an annotated file.
\<close>

definition notes_txt :: "read_item list" where
  "notes_txt =
     [Line (py ''    # @TODO fix this later'' @ [10]),
      Line (py ''    normal comment, no tag'' @ [10]),
      Line (py ''    // @FIXME broken on windows'' @ [10])]"

definition home_tree :: node where
  "home_tree =
     Dir [(py ''home'', Dir [(py ''u'', Dir
            [(py ''notes.txt'', File notes_txt),
             (py ''plain.txt'', File [Line (py ''nothing here'' @ [10])]),
             (py ''bin.dat'', File [Line (py ''  # @TODO lost'' @ [10]), Undecodable])])]),
          (py ''srv'', Dir [(py ''x.c'', File [Line (py '' * @XXX  '')])]),
          (py ''secret'', Dir [(py ''key'', Unreadable),
                               (py ''todo.txt'', File [Line (py ''  # @TODO rotate'')])])]"

definition home_world :: "str option \<Rightarrow> world" where
  "home_world v =
     \<lparr>cwd = Path [47] [py ''srv''], home = Path [47] [py ''home'', py ''u''],
      todo_path = v, fs = tree_fs home_tree\<rparr>"

definition notes_path :: path where
  "notes_path = Path [47] [py ''home'', py ''u'', py ''notes.txt'']"

text \<open>Paths and a result on that machine.\<close>

definition u_path :: path where
  "u_path = Path [47] [py ''home'', py ''u'']"

definition plain_path :: path where
  "plain_path = Path [47] [py ''home'', py ''u'', py ''plain.txt'']"

definition bin_path :: path where
  "bin_path = Path [47] [py ''home'', py ''u'', py ''bin.dat'']"

definition key_path :: path where
  "key_path = Path [47] [py ''secret'', py ''key'']"

definition x_path :: path where
  "x_path = Path [47] [py ''srv'', py ''x.c'']"

definition notes_result :: search_result where
  "notes_result =
     \<lparr>file' = notes_path,
      todos = [(1, py ''@TODO'', py ''fix this later''),
               (3, py ''@FIXME'', py ''broken on windows'')]\<rparr>"

text \<open>
  A machine with a directory \<^verbatim>\<open>/r\<close> that holds a file, a link to a file, a
  directory with a file, a socket and a dangling link, and a link to a directory
  with a file; and with a directory \<^verbatim>\<open>/k\<close> that holds a directory that cannot be
  listed.
\<close>

definition link_dir :: node where
  "link_dir =
     Dir [(py ''a'', File []),
          (py ''l'', Link (File [])),
          (py ''d'', Dir [(py ''x'', Unreadable), (py ''s'', Special), (py ''b'', Broken)]),
          (py ''ld'', Link (Dir [(py ''y'', File [])]))]"

definition link_tree :: node where
  "link_tree = Dir [(py ''r'', link_dir), (py ''k'', Dir [(py ''in'', Locked)])]"

definition link_world :: world where
  "link_world =
     \<lparr>cwd = Path [47] [py ''r''], home = Path [47] [py ''r''], todo_path = None,
      fs = tree_fs link_tree\<rparr>"

text \<open>
  A machine with a repository \<^verbatim>\<open>/repo\<close>, whose \<^verbatim>\<open>.git\<close> is a directory, and in it
  \<^verbatim>\<open>/repo/sub\<close>, whose \<^verbatim>\<open>.git\<close> is a file, as in a submodule or a linked work tree;
  the program runs in \<^verbatim>\<open>/repo/sub/src\<close>.
\<close>

definition git_tree :: node where
  "git_tree =
     Dir [(py ''repo'', Dir
            [(py ''.git'', Dir []),
             (py ''sub'', Dir [(py ''.git'', File [Line (py ''gitdir: ../.git/modules/sub'')]),
                              (py ''src'', Dir [])])])]"

definition git_world :: "str option \<Rightarrow> world" where
  "git_world v =
     \<lparr>cwd = Path [47] [py ''repo'', py ''sub'', py ''src''], home = Path [47] [py ''repo''],
      todo_path = v, fs = tree_fs git_tree\<rparr>"

section \<open>Splitting and joining\<close>

lemma str_split_nonempty: "str_split sep s \<noteq> []"
  by (induction s) (auto split: list.splits)

lemma str_join_Cons: "ys \<noteq> [] \<Longrightarrow> str_join sep (x # ys) = x @ sep @ str_join sep ys"
  by (cases ys) auto

lemma str_join_split: "str_join [sep] (str_split sep s) = s"
proof (induction s)
  case Nil
  show ?case by simp
next
  case (Cons c cs)
  show ?case
  proof (cases "c = sep")
    case True
    with Cons show ?thesis by (simp add: str_join_Cons str_split_nonempty)
  next
    case False
    obtain seg segs where "str_split sep cs = seg # segs"
      using str_split_nonempty [of sep cs] by (cases "str_split sep cs") auto
    with Cons False show ?thesis by (cases segs) auto
  qed
qed

lemma str_split_no_sep: "seg \<in> set (str_split sep s) \<Longrightarrow> sep \<notin> set seg"
proof (induction s arbitrary: seg)
  case Nil
  then show ?case by simp
next
  case (Cons c cs)
  then show ?case by (auto split: if_splits list.splits)
qed

section \<open>The path resolver: what it returns\<close>

lemma current_git_repo_None:
  "current_git_repo w = None \<longleftrightarrow>
     (\<forall>p \<in> set (cwd w # parents (cwd w)). \<not> path_exists w (child p (py ''.git'')))"
  unfolding current_git_repo_def find_None_iff by blast

lemmas plain_world_simps =
  plain_world_def plain_tree_def tree_fs_def py_def os_path_exists_def path_of_str_def
  splitroot_def path_exists_def parents_def child_def str_of_path_def

lemma plain_world_no_repo: "current_git_repo (plain_world v) = None"
  by (simp add: current_git_repo_def plain_world_simps)

text \<open>
  C6. When \<^verbatim>\<open>TODO_PATH\<close> is set, \<^verbatim>\<open>todo_paths\<close> returns the paths of the segments of
  its value between the colons that exist, in their order and as often as they
  occur, and raises nothing; these are the scan roots when there is no repository
  above the working directory. The segments are the strings without a colon
  that, joined by colons, give the value back.
\<close>

theorem todo_paths_existing_segments:
  assumes "todo_path w = Some v"
  shows "todo_paths w = Inr (map path_of_str (filter (os_path_exists w) (str_split 58 v)))
       \<and> (current_git_repo w = None \<longrightarrow> scan_roots w = todo_paths w)
       \<and> str_join [58] (str_split 58 v) = v
       \<and> (\<forall>seg \<in> set (str_split 58 v). 58 \<notin> set seg)"
  using assms by (simp add: todo_paths_def scan_roots_def str_join_split str_split_no_sep)

theorem todo_paths_existing_segments_witness:
  "todo_path (plain_world (Some (py ''/a:/b:/a''))) = Some (py ''/a:/b:/a'')
   \<and> scan_roots (plain_world (Some (py ''/a:/b:/a'')))
       = Inr [Path [47] [py ''a''], Path [47] [py ''a'']]"
  using todo_paths_existing_segments [of "plain_world (Some (py ''/a:/b:/a''))" "py ''/a:/b:/a''"]
    plain_world_no_repo [of "Some (py ''/a:/b:/a'')"]
  by (simp add: plain_world_simps)

text \<open>
  C3. When no directory from the working directory up to the root has an entry
  \<^verbatim>\<open>.git\<close> and \<^verbatim>\<open>TODO_PATH\<close> is not set, the run writes
  \<^verbatim>\<open>ERROR: TODO_PATH not set.\<close> to the error stream, nothing to the output, and
  exits with code 1, whatever else the file system holds.
\<close>

theorem main_bails_when_unset:
  assumes "\<forall>p \<in> set (cwd w # parents (cwd w)). \<not> path_exists w (child p (py ''.git''))"
    and "todo_path w = None"
  shows "main w = \<lparr>stdout = [], stderr = py ''ERROR: TODO_PATH not set.'' @ [10],
                   exit_code = 1, uncaught = None\<rparr>
       \<and> exit_code (main w) \<noteq> 0"
proof -
  from assms(1) have "current_git_repo w = None"
    by (simp only: current_git_repo_None)
  with assms(2) show ?thesis
    by (simp add: main_def scan_roots_def todo_paths_def bail_def py_def)
qed

theorem main_bails_when_unset_witness:
  "stderr (main (plain_world None)) = py ''ERROR: TODO_PATH not set.'' @ [10]
   \<and> stdout (main (plain_world None)) = []
   \<and> exit_code (main (plain_world None)) = 1"
proof -
  have "\<forall>p \<in> set (cwd (plain_world None) # parents (cwd (plain_world None))).
          \<not> path_exists (plain_world None) (child p (py ''.git''))"
    by (simp add: plain_world_simps)
  moreover have "todo_path (plain_world None) = None"
    by (simp add: plain_world_def)
  ultimately show ?thesis
    using main_bails_when_unset [of "plain_world None"] by simp
qed

text \<open>
  C10. An empty segment of \<^verbatim>\<open>TODO_PATH\<close> is dropped like any path that does not
  exist: \<^verbatim>\<open>todo_paths\<close> returns what it returns for the segments that are not empty.
  When no segment exists and there is no repository above the working directory,
  there is no scan root, and the run writes nothing and exits with code 0.
\<close>

theorem empty_segments_dropped:
  assumes "todo_path w = Some v"
  shows "todo_paths w
           = Inr (map path_of_str
                    (filter (os_path_exists w) (filter (\<lambda>seg. seg \<noteq> []) (str_split 58 v))))
       \<and> (current_git_repo w = None \<and> (\<forall>seg \<in> set (str_split 58 v). \<not> os_path_exists w seg)
            \<longrightarrow> scan_roots w = Inr []
              \<and> main w = \<lparr>stdout = [], stderr = [], exit_code = 0, uncaught = None\<rparr>)"
proof -
  have "filter (os_path_exists w) (filter (\<lambda>seg. seg \<noteq> []) (str_split 58 v))
        = filter (os_path_exists w) (str_split 58 v)"
    by (auto simp: os_path_exists_def intro: filter_cong)
  moreover have "filter (os_path_exists w) (str_split 58 v) = []"
    if "\<forall>seg \<in> set (str_split 58 v). \<not> os_path_exists w seg"
    using that by (simp add: filter_empty_conv)
  ultimately show ?thesis
    using assms by (simp add: todo_paths_def scan_roots_def main_def report_def retained_def)
qed

theorem empty_segments_dropped_witness:
  "todo_path (plain_world (Some (py ''::/b''))) = Some (py ''::/b'')
   \<and> str_split 58 (py ''::/b'') = [[], [], py ''/b'']
   \<and> main (plain_world (Some (py ''::/b'')))
       = \<lparr>stdout = [], stderr = [], exit_code = 0, uncaught = None\<rparr>"
  using empty_segments_dropped [of "plain_world (Some (py ''::/b''))" "py ''::/b''"]
    plain_world_no_repo [of "Some (py ''::/b'')"]
  by (simp add: plain_world_simps)

section \<open>The pattern, piece by piece\<close>


lemma repeat_concat:
  assumes blk: "\<And>p x xs cs. accepts c x \<Longrightarrow> F (p, x # xs, cs) = []"
  shows "concat (map F (repeat c (pos, xs, caps)))
         = F (pos + length (takeWhile (accepts c) xs), dropWhile (accepts c) xs, caps)"
proof (induction xs arbitrary: pos)
  case Nil
  show ?case by simp
next
  case (Cons x xs)
  show ?case
  proof (cases "accepts c x")
    case True
    with Cons [of "Suc pos"] blk [OF True] show ?thesis by simp
  next
    case False
    then show ?thesis by simp
  qed
qed

lemma plus_concat:
  assumes blk: "\<And>p x xs cs. accepts c x \<Longrightarrow> F (p, x # xs, cs) = []"
  shows "concat (map F (run (Plus c) (pos, xs, caps)))
         = (if takeWhile (accepts c) xs = [] then []
            else F (pos + length (takeWhile (accepts c) xs), dropWhile (accepts c) xs, caps))"
proof (cases xs)
  case Nil
  then show ?thesis by simp
next
  case (Cons x xs')
  show ?thesis
  proof (cases "accepts c x")
    case True
    have "concat (map F (run (Plus c) (pos, xs, caps)))
          = concat (map F (repeat c (Suc pos, xs', caps)))"
      using Cons True by simp
    also have "\<dots> = F (Suc pos + length (takeWhile (accepts c) xs'), dropWhile (accepts c) xs', caps)"
      by (rule repeat_concat) (rule blk)
    finally show ?thesis using Cons True by simp
  next
    case False
    with Cons show ?thesis by simp
  qed
qed

lemma repeat_hd:
  "\<exists>tl. repeat c (pos, xs, caps)
        = (pos + length (takeWhile (accepts c) xs), dropWhile (accepts c) xs, caps) # tl"
proof (induction xs arbitrary: pos)
  case Nil
  show ?case by simp
next
  case (Cons x xs)
  from Cons [of "Suc pos"] show ?case by (cases "accepts c x") auto
qed

lemma take_length_takeWhile: "take (length (takeWhile P xs)) xs = takeWhile P xs"
  by (induction xs) auto

lemma run_text_group:
  "\<exists>tl. run text_group (p, xs, cs)
        = (p + length (takeWhile (\<lambda>c. c \<noteq> 10) xs), dropWhile (\<lambda>c. c \<noteq> 10) xs,
           (''text'', takeWhile (\<lambda>c. c \<noteq> 10) xs) # cs) # tl"
proof -
  have eq: "accepts Dot = (\<lambda>c. c \<noteq> 10)" by (rule ext) simp
  from repeat_hd [of Dot p xs cs] obtain tl where
    "repeat Dot (p, xs, cs)
       = (p + length (takeWhile (\<lambda>c. c \<noteq> 10) xs), dropWhile (\<lambda>c. c \<noteq> 10) xs, cs) # tl"
    unfolding eq by blast
  then show ?thesis
    by (simp add: text_group_def take_length_takeWhile)
qed

lemma run_after_space:
  "run after_space (p, xs, cs)
   = (case xs of [] \<Rightarrow> [] | x # xs' \<Rightarrow> if x = 32 then run text_group (Suc p, xs', cs) else [])"
  by (cases xs) (simp_all add: after_space_def)

lemma run_after_ws2:
  "run after_ws2 (p, xs, cs)
   = (case xs of [] \<Rightarrow> []
      | x # xs' \<Rightarrow>
          if x = 64 \<and> takeWhile (\<lambda>c. 65 \<le> c \<and> c \<le> 90) xs' \<noteq> []
          then run after_space (Suc (p + length (takeWhile (\<lambda>c. 65 \<le> c \<and> c \<le> 90) xs')),
                 dropWhile (\<lambda>c. 65 \<le> c \<and> c \<le> 90) xs',
                 (''tag'', 64 # takeWhile (\<lambda>c. 65 \<le> c \<and> c \<le> 90) xs') # cs)
          else [])"
proof (cases xs)
  case Nil
  then show ?thesis by (simp add: after_ws2_def tag_group_def)
next
  case (Cons x xs')
  define G where "G = (\<lambda>(pos', rest', caps'). (pos', rest', (''tag'', take (pos' - p) xs) # caps') :: mstate)"
  define F where "F = (\<lambda>st. run after_space (G st))"
  have eq: "accepts (Range 65 90) = (\<lambda>c. 65 \<le> c \<and> c \<le> 90)" by (rule ext) simp
  have blk: "\<And>p x xs cs. accepts (Range 65 90) x \<Longrightarrow> F (p, x # xs, cs) = []"
    by (auto simp: F_def G_def run_after_space)
  show ?thesis
  proof (cases "x = 64")
    case True
    have "run after_ws2 (p, xs, cs) = concat (map F (run (Plus (Range 65 90)) (Suc p, xs', cs)))"
      using Cons True by (simp add: after_ws2_def tag_group_def F_def G_def map_concat comp_def)
    also note plus_concat [of "Range 65 90" F, OF blk]
    finally show ?thesis
      using Cons True unfolding eq by (simp add: F_def G_def take_length_takeWhile)
  next
    case False
    with Cons show ?thesis by (simp add: after_ws2_def tag_group_def)
  qed
qed

lemma run_after_open:
  "run after_open (p, xs, cs)
   = (if takeWhile is_space xs = [] then []
      else run after_ws2 (p + length (takeWhile is_space xs), dropWhile is_space xs, cs))"
proof -
  have eq: "accepts Whitespace = is_space" by (rule ext) simp
  have blk: "\<And>p x xs cs. accepts Whitespace x \<Longrightarrow> run after_ws2 (p, x # xs, cs) = []"
    by (auto simp: run_after_ws2 is_space_def)
  show ?thesis
    using plus_concat [of Whitespace "run after_ws2", OF blk]
    by (simp add: after_open_def eq)
qed


lemma run_after_ws1:
  "run after_ws1 (p, xs, cs)
   = (if take 2 xs = [47, 47] then run after_open (p + 2, drop 2 xs, (''1'', [47, 47]) # cs)
      else if take 1 xs = [35] then run after_open (p + 1, drop 1 xs, (''1'', [35]) # cs)
      else if take 2 xs = [47, 42] then run after_open (p + 2, drop 2 xs, (''1'', [47, 42]) # cs)
      else if take 1 xs = [42] then run after_open (p + 1, drop 1 xs, (''1'', [42]) # cs)
      else [])"
proof (cases xs)
  case Nil
  then show ?thesis by (simp add: after_ws1_def comment_open_def)
next
  case (Cons x xs')
  then show ?thesis
    by (cases xs') (auto simp: after_ws1_def comment_open_def)
qed

lemma run_after_bol:
  "run after_bol (p, xs, cs)
   = (if takeWhile is_space xs = [] then []
      else run after_ws1 (p + length (takeWhile is_space xs), dropWhile is_space xs, cs))"
proof -
  have eq: "accepts Whitespace = is_space" by (rule ext) simp
  have blk: "\<And>p x xs cs. accepts Whitespace x \<Longrightarrow> run after_ws1 (p, x # xs, cs) = []"
    by (auto simp: run_after_ws1 is_space_def)
  show ?thesis
    using plus_concat [of Whitespace "run after_ws1", OF blk]
    by (simp add: after_bol_def eq)
qed

lemma todo_regex_after_bol: "todo_regex = Seq Bol after_bol"
  by (simp add: todo_regex_def after_bol_def after_ws1_def after_open_def after_ws2_def
      after_space_def)

lemma takeWhile_run:
  assumes "list_all P xs" and "\<not> P y"
  shows "takeWhile P (xs @ y # ys) = xs" and "dropWhile P (xs @ y # ys) = y # ys"
  using assms by (induction xs) auto

lemma takeWhile_all: "list_all P (takeWhile P xs)"
  by (induction xs) auto

lemma annotated_run:
  assumes "annotated xs tag text"
  shows "\<exists>pos rest tok tl. run after_bol (p, xs, cs)
           = (pos, rest, (''text'', text) # (''tag'', tag) # (''1'', tok) # cs) # tl"
proof -
  from assms obtain ws1 tok ws2 letters rest where
    xs: "xs = ws1 @ tok @ ws2 @ 64 # letters @ 32 # rest"
    and ws1: "ws1 \<noteq> []" "list_all is_space ws1"
    and tok: "tok \<in> set comment_tokens"
    and ws2: "ws2 \<noteq> []" "list_all is_space ws2"
    and letters: "letters \<noteq> []" "list_all (\<lambda>c. 65 \<le> c \<and> c \<le> 90) letters"
    and tag_eq: "tag = 64 # letters" and text_eq: "text = takeWhile (\<lambda>c. c \<noteq> 10) rest"
    unfolding annotated_def by blast
  from tok obtain y ys where tok_eq: "tok = y # ys" and y: "\<not> is_space y"
    by (auto simp: comment_tokens_def is_space_def)
  have t1: "takeWhile is_space xs = ws1"
    "dropWhile is_space xs = tok @ ws2 @ 64 # letters @ 32 # rest"
    unfolding xs tok_eq using takeWhile_run [OF ws1(2) y] by simp_all
  have n64: "\<not> is_space 64" by (simp add: is_space_def)
  have t2: "takeWhile is_space (ws2 @ 64 # letters @ 32 # rest) = ws2"
    "dropWhile is_space (ws2 @ 64 # letters @ 32 # rest) = 64 # letters @ 32 # rest"
    using takeWhile_run [OF ws2(2) n64] by simp_all
  have n32: "\<not> (65 \<le> (32::nat) \<and> (32::nat) \<le> 90)" by simp
  have t3: "takeWhile (\<lambda>c. 65 \<le> c \<and> c \<le> 90) (letters @ 32 # rest) = letters"
    "dropWhile (\<lambda>c. 65 \<le> c \<and> c \<le> 90) (letters @ 32 # rest) = 32 # rest"
    using takeWhile_run [of "\<lambda>c. 65 \<le> c \<and> c \<le> 90", OF letters(2) n32] by simp_all
  have s1: "run after_bol (p, xs, cs)
            = run after_ws1 (p + length ws1, tok @ ws2 @ 64 # letters @ 32 # rest, cs)"
    using ws1(1) by (simp add: run_after_bol t1)
  have s2: "run after_ws1 (p + length ws1, tok @ ws2 @ 64 # letters @ 32 # rest, cs)
            = run after_open (p + length ws1 + length tok, ws2 @ 64 # letters @ 32 # rest,
                (''1'', tok) # cs)"
    using tok by (auto simp: run_after_ws1 comment_tokens_def)
  have s3: "run after_open (q, ws2 @ 64 # letters @ 32 # rest, cs')
            = run after_space (Suc (q + length ws2 + length letters), 32 # rest,
                (''tag'', tag) # cs')" for q cs'
    using ws2(1) letters(1) t3 by (simp add: run_after_open t2 run_after_ws2 tag_eq)
  have s4: "run after_space (q, 32 # rest, cs') = run text_group (Suc q, rest, cs')" for q cs'
    by (simp add: run_after_space)
  from run_text_group show ?thesis
    unfolding s1 s2 s3 s4 text_eq by blast
qed

lemma run_annotated:
  assumes "run after_bol (p, xs, cs) = st # sts"
  shows "\<exists>tag text tok. annotated xs tag text
           \<and> snd (snd st) = (''text'', text) # (''tag'', tag) # (''1'', tok) # cs"
proof -
  define ws1 where "ws1 = takeWhile is_space xs"
  define r1 where "r1 = dropWhile is_space xs"
  have xs: "xs = ws1 @ r1" by (simp add: ws1_def r1_def)
  from assms have ws1: "ws1 \<noteq> []" and run1: "run after_ws1 (p + length ws1, r1, cs) = st # sts"
    by (auto simp: run_after_bol ws1_def r1_def split: if_splits)
  let ?P = "\<lambda>tok. tok \<in> set comment_tokens \<and> take (length tok) r1 = tok
       \<and> run after_open (p + length ws1 + length tok, drop (length tok) r1, (''1'', tok) # cs)
           = st # sts"
  have "?P [47, 47] \<or> ?P [35] \<or> ?P [47, 42] \<or> ?P [42]"
    using run1 by (simp add: run_after_ws1 comment_tokens_def numeral_2_eq_2 split: if_splits)
  then obtain tok where tok: "tok \<in> set comment_tokens" and tk: "take (length tok) r1 = tok"
    and run2': "run after_open (p + length ws1 + length tok, drop (length tok) r1,
                  (''1'', tok) # cs) = st # sts"
    by blast
  define r2 where "r2 = drop (length tok) r1"
  have r1: "r1 = tok @ r2"
    using append_take_drop_id [of "length tok" r1] by (simp add: tk r2_def)
  have run2: "run after_open (p + length ws1 + length tok, r2, (''1'', tok) # cs) = st # sts"
    using run2' by (simp add: r2_def)
  define ws2 where "ws2 = takeWhile is_space r2"
  define r3 where "r3 = dropWhile is_space r2"
  have r2: "r2 = ws2 @ r3" by (simp add: ws2_def r3_def)
  from run2 have ws2: "ws2 \<noteq> []"
    and run3: "run after_ws2 (p + length ws1 + length tok + length ws2, r3, (''1'', tok) # cs) = st # sts"
    by (auto simp: run_after_open ws2_def r3_def split: if_splits)
  from run3 obtain r4 where r3: "r3 = 64 # r4"
    by (cases r3) (auto simp: run_after_ws2 split: if_splits)
  define letters where "letters = takeWhile (\<lambda>c. 65 \<le> c \<and> c \<le> 90) r4"
  define r5 where "r5 = dropWhile (\<lambda>c. 65 \<le> c \<and> c \<le> 90) r4"
  have r4: "r4 = letters @ r5" by (simp add: letters_def r5_def)
  from run3 have letters: "letters \<noteq> []"
    and run4: "run after_space (Suc (p + length ws1 + length tok + length ws2 + length letters), r5,
                 (''tag'', 64 # letters) # (''1'', tok) # cs) = st # sts"
    by (auto simp: run_after_ws2 r3 letters_def r5_def split: if_splits)
  from run4 obtain rest where r5: "r5 = 32 # rest"
    and run5: "run text_group (Suc (Suc (p + length ws1 + length tok + length ws2 + length letters)),
                 rest, (''tag'', 64 # letters) # (''1'', tok) # cs) = st # sts"
    by (cases r5) (auto simp: run_after_space split: if_splits)
  from run_text_group obtain more where
    "run text_group (Suc (Suc (p + length ws1 + length tok + length ws2 + length letters)),
       rest, (''tag'', 64 # letters) # (''1'', tok) # cs)
     = (Suc (Suc (p + length ws1 + length tok + length ws2 + length letters))
          + length (takeWhile (\<lambda>c. c \<noteq> 10) rest),
        dropWhile (\<lambda>c. c \<noteq> 10) rest,
        (''text'', takeWhile (\<lambda>c. c \<noteq> 10) rest) # (''tag'', 64 # letters)
          # (''1'', tok) # cs) # more"
    by blast
  with run5 have st: "snd (snd st) = (''text'', takeWhile (\<lambda>c. c \<noteq> 10) rest)
              # (''tag'', 64 # letters) # (''1'', tok) # cs"
    by auto
  have a1: "list_all is_space ws1" unfolding ws1_def by (rule takeWhile_all)
  have a2: "list_all is_space ws2" unfolding ws2_def by (rule takeWhile_all)
  have a3: "list_all (\<lambda>c. 65 \<le> c \<and> c \<le> 90) letters"
    unfolding letters_def by (rule takeWhile_all)
  have eq: "xs = ws1 @ tok @ ws2 @ 64 # letters @ 32 # rest"
    by (simp add: xs r1 r2 r3 r4 r5)
  have "annotated xs (64 # letters) (takeWhile (\<lambda>c. c \<noteq> 10) rest)"
    unfolding annotated_def using eq ws1 a1 tok ws2 a2 letters a3 by blast
  with st show ?thesis by blast
qed

section \<open>The line matcher: which lines match\<close>

lemma search_from_later: "search_from todo_regex (Suc pos) s = None"
  by (induction s arbitrary: pos) (simp_all add: todo_regex_after_bol)

lemma run_todo_regex: "run todo_regex (0, line, cs) = run after_bol (0, line, cs)"
  by (simp add: todo_regex_after_bol)

lemma re_search_run:
  "re_search todo_regex line
   = (case run after_bol (0, line, []) of [] \<Rightarrow> None | st # _ \<Rightarrow> Some (snd (snd st)))"
  by (cases line) (simp_all add: re_search_def run_todo_regex search_from_later split: list.splits)

lemma re_search_annotated:
  assumes "re_search todo_regex line = Some m"
  shows "annotated line (group m ''tag'') (group m ''text'')"
proof -
  from assms obtain st sts where run: "run after_bol (0, line, []) = st # sts"
    and m: "m = snd (snd st)"
    by (auto simp: re_search_run split: list.splits)
  from run_annotated [OF run] obtain tag body tok where
    "annotated line tag body" "m = [(''text'', body), (''tag'', tag), (''1'', tok)]"
    unfolding m by blast
  then show ?thesis by (simp add: group_def)
qed

lemma annotated_re_search:
  assumes "annotated line tag text"
  shows "\<exists>m. re_search todo_regex line = Some m \<and> group m ''tag'' = tag
           \<and> group m ''text'' = text"
proof -
  from annotated_run [OF assms, of 0 "[]"] obtain pos rest tok more where
    "run after_bol (0, line, []) = (pos, rest, [(''text'', text), (''tag'', tag), (''1'', tok)]) # more"
    by blast
  then show ?thesis by (simp add: re_search_run group_def)
qed

lemma annotated_unique:
  assumes "annotated line tag text" and "annotated line tag' text'"
  shows "tag' = tag \<and> text' = text"
  using annotated_re_search [OF assms(1)] annotated_re_search [OF assms(2)] by auto

lemma re_search_None: "re_search todo_regex line = None \<longleftrightarrow> (\<forall>tag text. \<not> annotated line tag text)"
proof
  assume "re_search todo_regex line = None"
  then show "\<forall>tag text. \<not> annotated line tag text"
    using annotated_re_search by fastforce
next
  assume "\<forall>tag text. \<not> annotated line tag text"
  then show "re_search todo_regex line = None"
    using re_search_annotated by (cases "re_search todo_regex line") auto
qed

lemma annotated_starts_with_space:
  assumes "annotated line tag text"
  shows "line \<noteq> [] \<and> is_space (hd line)"
proof -
  from assms obtain ws1 more where "line = ws1 @ more" "ws1 \<noteq> []" "list_all is_space ws1"
    unfolding annotated_def by blast
  then show ?thesis by (cases ws1) auto
qed

lemma scan_step_annotated:
  assumes "annotated line tag text"
  shows "scan (Line line # rest) n acc = scan rest (n + 1) (acc @ [(n, tag, str_strip text)])"
  using annotated_re_search [OF assms] by auto

lemma scan_step_plain:
  assumes "\<forall>tag text. \<not> annotated line tag text"
  shows "scan (Line line # rest) n acc = scan rest (n + 1) acc"
  using assms by (simp add: re_search_None [symmetric])

text \<open>
  C1, amended. A line gives an annotation exactly when it is made of one or more
  whitespace characters, one of \<^verbatim>\<open>//\<close>, \<^verbatim>\<open>#\<close>, \<^verbatim>\<open>*\<close>, \<^verbatim>\<open>/*\<close>, one or more whitespace
  characters, \<^verbatim>\<open>@\<close> and one or more capital letters, one space, and any text: the
  pattern matches exactly these lines, the loop of \<^verbatim>\<open>search_file\<close> then appends the
  line number, the tag and the stripped text up to the end of the line, and appends
  nothing for any other line. A line that is empty or starts with a character that
  is no whitespace never matches.
\<close>

theorem line_matcher_pattern:
  "(re_search todo_regex line \<noteq> None) = (\<exists>tag text. annotated line tag text)
   \<and> (annotated line tag text \<longrightarrow>
        scan (Line line # rest) n acc = scan rest (n + 1) (acc @ [(n, tag, str_strip text)]))
   \<and> ((\<forall>tag text. \<not> annotated line tag text) \<longrightarrow>
        scan (Line line # rest) n acc = scan rest (n + 1) acc)
   \<and> (line = [] \<or> \<not> is_space (hd line) \<longrightarrow> re_search todo_regex line = None)"
proof (intro conjI impI)
  show "(re_search todo_regex line \<noteq> None) = (\<exists>tag text. annotated line tag text)"
    by (simp add: re_search_None)
next
  assume "annotated line tag text"
  then show "scan (Line line # rest) n acc = scan rest (n + 1) (acc @ [(n, tag, str_strip text)])"
    by (rule scan_step_annotated)
next
  assume "\<forall>tag text. \<not> annotated line tag text"
  then show "scan (Line line # rest) n acc = scan rest (n + 1) acc"
    by (rule scan_step_plain)
next
  assume "line = [] \<or> \<not> is_space (hd line)"
  then have "\<forall>tag text. \<not> annotated line tag text"
    using annotated_starts_with_space by blast
  then show "re_search todo_regex line = None"
    by (simp add: re_search_None)
qed

lemma todo_line_annotated: "annotated (py ''    # @TODO fix this later'' @ [10]) (py ''@TODO'') (py ''fix this later'')"
  unfolding annotated_def
  by (rule exI [of _ "py ''    ''"], rule exI [of _ "py ''#''"], rule exI [of _ "py '' ''"],
      rule exI [of _ "py ''TODO''"], rule exI [of _ "py ''fix this later'' @ [10]"])
     (simp add: py_def is_space_def comment_tokens_def)

theorem line_matcher_pattern_witness:
  "annotated (py ''    # @TODO fix this later'' @ [10]) (py ''@TODO'') (py ''fix this later'')
   \<and> scan [Line (py ''    # @TODO fix this later'' @ [10])] 1 []
       = Some [(1, py ''@TODO'', py ''fix this later'')]
   \<and> re_search todo_regex (py ''# @TODO fix this later'') = None"
proof -
  have "str_strip (py ''fix this later'') = py ''fix this later''"
    by (simp add: str_strip_def py_def is_space_def)
  then show ?thesis
    using todo_line_annotated
      line_matcher_pattern [of "py ''    # @TODO fix this later'' @ [10]" "py ''@TODO''"
        "py ''fix this later''" "[]" 1 "[]"]
      line_matcher_pattern [of "py ''# @TODO fix this later''" "[]" "[]" "[]" 0 "[]"]
    by (simp add: py_def is_space_def)
qed

text \<open>
  C1 as it is written asks for a single whitespace character before the tag. The
  line \<^verbatim>\<open>  #  @TODO x\<close>, with two spaces there, is not of that form, and it gives an
  annotation.
\<close>

theorem single_whitespace_counterexample:
  "scan [Line (py ''  #  @TODO x'')] 1 [] = Some [(1, py ''@TODO'', py ''x'')]
   \<and> \<not> spec_line_form (py ''  #  @TODO x'')"
proof
  have ann: "annotated (py ''  #  @TODO x'') (py ''@TODO'') (py ''x'')"
    unfolding annotated_def
    by (rule exI [of _ "py ''  ''"], rule exI [of _ "py ''#''"], rule exI [of _ "py ''  ''"],
        rule exI [of _ "py ''TODO''"], rule exI [of _ "py ''x''"])
       (simp add: py_def is_space_def comment_tokens_def)
  have "str_strip (py ''x'') = py ''x''"
    by (simp add: str_strip_def py_def is_space_def)
  with scan_step_annotated [OF ann, of "[]" 1 "[]"]
  show "scan [Line (py ''  #  @TODO x'')] 1 [] = Some [(1, py ''@TODO'', py ''x'')]"
    by simp
next
  show "\<not> spec_line_form (py ''  #  @TODO x'')"
  proof
    assume "spec_line_form (py ''  #  @TODO x'')"
    then obtain ws1 tok w letters rest where
      line: "py ''  #  @TODO x'' = ws1 @ tok @ w # 64 # letters @ 32 # rest"
      and ws1: "list_all is_space ws1" and tok: "tok \<in> set comment_tokens"
      unfolding spec_line_form_def by blast
    from tok obtain y ys where tok_eq: "tok = y # ys" and y: "\<not> is_space y"
      by (auto simp: comment_tokens_def is_space_def)
    have "dropWhile is_space (py ''  #  @TODO x'') = tok @ w # 64 # letters @ 32 # rest"
      unfolding line tok_eq using takeWhile_run(2) [OF ws1 y] by simp
    moreover have "dropWhile is_space (py ''  #  @TODO x'') = [35, 32, 32, 64, 84, 79, 68, 79, 32, 120]"
      by (simp add: py_def is_space_def)
    ultimately have "tok @ w # 64 # letters @ 32 # rest = [35, 32, 32, 64, 84, 79, 68, 79, 32, 120]"
      by simp
    with tok show False by (auto simp: comment_tokens_def)
  qed
qed

section \<open>The line matcher: what a result holds\<close>



lemma scan_None_iff: "scan items n acc = None \<longleftrightarrow> Undecodable \<in> set items"
proof (induction items arbitrary: n acc)
  case Nil
  show ?case by simp
next
  case (Cons item items)
  show ?case
  proof (cases item)
    case (Line l)
    with Cons show ?thesis by (cases "re_search todo_regex l") simp_all
  next
    case Undecodable
    then show ?thesis by simp
  qed
qed

lemma annotated_tag:
  assumes "annotated line tag raw"
  shows "\<exists>letters. tag = 64 # letters \<and> letters \<noteq> [] \<and> list_all (\<lambda>c. 65 \<le> c \<and> c \<le> 90) letters"
  using assms unfolding annotated_def by blast

lemma found_in_Cons: "found_in items (Suc n) t \<Longrightarrow> found_in (item # items) n t"
  by (auto simp: found_in_def Suc_diff_le)

lemma scan_found:
  assumes "scan items n acc = Some out"
  shows "\<exists>new. out = acc @ new \<and> list_all (found_in items n) new
           \<and> sorted_wrt (<) (map fst new)"
  using assms
proof (induction items arbitrary: n acc)
  case Nil
  then show ?case by simp
next
  case (Cons item items)
  show ?case
  proof (cases item)
    case Undecodable
    with Cons.prems show ?thesis by simp
  next
    case (Line l)
    show ?thesis
    proof (cases "re_search todo_regex l")
      case None
      with Cons.prems Line have "scan items (Suc n) acc = Some out" by simp
      from Cons.IH [OF this] obtain new where "out = acc @ new"
        "list_all (found_in items (Suc n)) new" "sorted_wrt (<) (map fst new)"
        by blast
      then show ?thesis
        by (auto simp: list_all_iff intro: found_in_Cons)
    next
      case (Some m)
      let ?t = "(n, group m ''tag'', str_strip (group m ''text''))"
      from Cons.prems Line Some have "scan items (Suc n) (acc @ [?t]) = Some out" by simp
      from Cons.IH [OF this] obtain new where new: "out = (acc @ [?t]) @ new"
        "list_all (found_in items (Suc n)) new" "sorted_wrt (<) (map fst new)"
        by blast
      have t: "found_in (item # items) n ?t"
        using re_search_annotated [OF Some] by (auto simp: found_in_def Line)
      have later: "\<forall>k \<in> set (map fst new). n < k"
        using new(2) by (auto simp: list_all_iff found_in_def)
      have "list_all (found_in (item # items) n) (?t # new)"
        using t new(2) by (auto simp: list_all_iff intro: found_in_Cons)
      moreover have "sorted_wrt (<) (map fst (?t # new))"
        using later new(3) by simp
      ultimately show ?thesis using new(1) by (intro exI [of _ "?t # new"]) simp
    qed
  qed
qed


lemma line_not_annotated:
  assumes "run after_bol (0, line, []) = []"
  shows "re_search todo_regex line = None"
  using assms by (simp add: re_search_run)

lemma annotated_line1:
  "annotated (py ''    # @TODO fix this later'' @ [10]) (py ''@TODO'') (py ''fix this later'')"
  unfolding annotated_def
  by (rule exI [of _ "py ''    ''"], rule exI [of _ "py ''#''"], rule exI [of _ "py '' ''"],
      rule exI [of _ "py ''TODO''"], rule exI [of _ "py ''fix this later'' @ [10]"])
     (simp add: py_def is_space_def comment_tokens_def)

lemma annotated_line3:
  "annotated (py ''    // @FIXME broken on windows'' @ [10]) (py ''@FIXME'')
     (py ''broken on windows'')"
  unfolding annotated_def
  by (rule exI [of _ "py ''    ''"], rule exI [of _ "py ''//''"], rule exI [of _ "py '' ''"],
      rule exI [of _ "py ''FIXME''"], rule exI [of _ "py ''broken on windows'' @ [10]"])
     (simp add: py_def is_space_def comment_tokens_def)

lemma plain_line2: "re_search todo_regex (py ''    normal comment, no tag'' @ [10]) = None"
  by (rule line_not_annotated) (simp add: run_after_bol run_after_ws1 py_def is_space_def)

lemma scan_notes_txt:
  "scan notes_txt 1 []
   = Some [(1, py ''@TODO'', py ''fix this later''), (3, py ''@FIXME'', py ''broken on windows'')]"
proof -
  have s1: "str_strip (py ''fix this later'') = py ''fix this later''"
    by (simp add: str_strip_def py_def is_space_def)
  have s3: "str_strip (py ''broken on windows'') = py ''broken on windows''"
    by (simp add: str_strip_def py_def is_space_def)
  let ?l1 = "py ''    # @TODO fix this later'' @ [10]"
  let ?l2 = "py ''    normal comment, no tag'' @ [10]"
  let ?l3 = "py ''    // @FIXME broken on windows'' @ [10]"
  let ?t1 = "(1 :: nat, py ''@TODO'', py ''fix this later'')"
  let ?t3 = "(3 :: nat, py ''@FIXME'', py ''broken on windows'')"
  have "scan notes_txt 1 [] = scan [Line ?l2, Line ?l3] 2 [?t1]"
    unfolding notes_txt_def
    using scan_step_annotated [OF annotated_line1, of "[Line ?l2, Line ?l3]" 1 "[]"]
    by (simp add: s1 numeral_2_eq_2 del: scan.simps)
  also have "\<dots> = scan [Line ?l3] 3 [?t1]"
    by (simp add: plain_line2 numeral_2_eq_2 numeral_3_eq_3)
  also have "\<dots> = Some [?t1, ?t3]"
    using scan_step_annotated [OF annotated_line3, of "[]" 3 "[?t1]"]
    by (simp add: s3 del: scan.simps(3))
  finally show ?thesis .
qed

lemma open_notes: "open_file (home_world v) notes_path = Inr notes_txt"
  by (simp add: open_file_def home_world_def notes_path_def str_of_path_def tree_fs_def
      path_of_str_def home_tree_def py_def)


lemma scan_empty_text: "scan [Line (py ''  # @X  '')] 1 [] = Some [(1, py ''@X'', [])]"
proof -
  have "annotated (py ''  # @X  '') (py ''@X'') (py '' '')"
    unfolding annotated_def
    by (rule exI [of _ "py ''  ''"], rule exI [of _ "py ''#''"], rule exI [of _ "py '' ''"],
        rule exI [of _ "py ''X''"], rule exI [of _ "py '' ''"])
       (simp add: py_def is_space_def comment_tokens_def)
  from scan_step_annotated [OF this, of "[]" 1 "[]"] show ?thesis
    by (simp add: str_strip_def py_def is_space_def del: scan.simps(3))
qed

text \<open>
  C9. When \<^verbatim>\<open>search_file\<close> returns a result for a file, every todo in it has the
  number, counted from 1, of a line of the file that has the form of an annotated
  line, with the tag of that line (\<^verbatim>\<open>@\<close> and at least one capital letter) and its
  stripped text; the line numbers are strictly ascending; and the text can be empty,
  as for the line \<^verbatim>\<open>  # @X  \<close>.
\<close>

theorem annotations_numbered_and_ordered:
  assumes "search_file w p = Inr (Some r)"
  shows "(\<exists>items. open_file w p = Inr items \<and> list_all (found_in items 1) (todos r))
       \<and> file' r = p
       \<and> sorted_wrt (<) (map fst (todos r))
       \<and> list_all (\<lambda>t. \<exists>letters. fst (snd t) = 64 # letters \<and> letters \<noteq> []
                      \<and> list_all (\<lambda>c. 65 \<le> c \<and> c \<le> 90) letters) (todos r)
       \<and> scan [Line (py ''  # @X  '')] 1 [] = Some [(1, py ''@X'', [])]"
proof -
  from assms obtain items where op: "open_file w p = Inr items"
    and sc: "scan items 1 [] = Some (todos r)" and f: "file' r = p"
    by (auto simp: search_file_def split: sum.splits option.splits)
  from scan_found [OF sc] have found: "list_all (found_in items 1) (todos r)"
    and sorted: "sorted_wrt (<) (map fst (todos r))"
    by auto
  have "\<exists>letters. fst (snd t) = 64 # letters \<and> letters \<noteq> []
                      \<and> list_all (\<lambda>c. 65 \<le> c \<and> c \<le> 90) letters"
    if "t \<in> set (todos r)" for t
  proof -
    from that found have "found_in items 1 t" by (simp add: list_all_iff)
    then obtain line raw where "annotated line (fst (snd t)) raw"
      by (auto simp: found_in_def split: prod.splits)
    then show ?thesis by (rule annotated_tag)
  qed
  then have "list_all (\<lambda>t. \<exists>letters. fst (snd t) = 64 # letters \<and> letters \<noteq> []
                      \<and> list_all (\<lambda>c. 65 \<le> c \<and> c \<le> 90) letters) (todos r)"
    by (simp add: list_all_iff)
  with op found f sorted scan_empty_text show ?thesis by blast
qed

theorem annotations_numbered_and_ordered_witness:
  "search_file (home_world None) notes_path
     = Inr (Some \<lparr>file' = notes_path,
                  todos = [(1, py ''@TODO'', py ''fix this later''),
                           (3, py ''@FIXME'', py ''broken on windows'')]\<rparr>)
   \<and> list_all (found_in notes_txt 1)
        [(1, py ''@TODO'', py ''fix this later''), (3, py ''@FIXME'', py ''broken on windows'')]
   \<and> sorted_wrt (<) [1, 3 :: nat]"
proof -
  have sf: "search_file (home_world None) notes_path
     = Inr (Some \<lparr>file' = notes_path,
                  todos = [(1, py ''@TODO'', py ''fix this later''),
                           (3, py ''@FIXME'', py ''broken on windows'')]\<rparr>)"
    by (simp add: search_file_def open_notes scan_notes_txt del: One_nat_def)
  from annotations_numbered_and_ordered [OF sf] show ?thesis
    using sf by (simp add: open_notes)
qed

section \<open>The program: files that give nothing, and the output\<close>

lemma pool_map_append:
  "pool_map f (xs @ ys)
   = (case pool_map f xs of
        Inl e \<Rightarrow> Inl e
      | Inr rs \<Rightarrow> (case pool_map f ys of Inl e \<Rightarrow> Inl e | Inr rs' \<Rightarrow> Inr (rs @ rs')))"
  by (induction xs) (auto split: sum.splits)

lemma retained_Nil: "retained [] = []"
  by (simp add: retained_def)

lemma retained_Cons:
  "retained (r # rs)
   = (case r of None \<Rightarrow> retained rs
      | Some res \<Rightarrow> if todos res \<noteq> [] then res # retained rs else retained rs)"
  by (simp add: retained_def split: option.splits)

lemma retained_append: "retained (xs @ ys) = retained xs @ retained ys"
  by (simp add: retained_def)

lemma retained_nonempty: "list_all (\<lambda>res. todos res \<noteq> []) (retained rs)"
  by (induction rs) (auto simp: retained_Nil retained_Cons split: option.splits)

lemma report_skip:
  assumes "search_file w p = Inr None \<or> (\<exists>r. search_file w p = Inr (Some r) \<and> todos r = [])"
  shows "report w (xs @ p # ys) = report w (xs @ ys)"
proof -
  from assms obtain r where r: "search_file w p = Inr r" "retained [r] = []"
    by (auto simp: retained_Cons retained_Nil)
  have skip: "retained (r # rs') = retained rs'" for rs'
    using r(2) retained_append [of "[r]" rs'] by simp
  show ?thesis
    by (simp add: report_def pool_map_append r(1) retained_append skip split: sum.splits)
qed

lemma report_raises:
  assumes "search_file w p = Inl e"
  shows "\<exists>e'. report w (xs @ p # ys) = crash [] e'"
  using assms by (auto simp: report_def pool_map_append split: sum.splits)

lemma search_file_undecodable:
  assumes "open_file w p = Inr items" and "Undecodable \<in> set items"
  shows "search_file w p = Inr None"
  using assms scan_None_iff [of items 1 "[]"] by (simp add: search_file_def)

lemma search_file_unopenable:
  assumes "open_file w p = Inl e"
  shows "search_file w p = Inl e"
  using assms by (simp add: search_file_def)

text \<open>
  C2, amended. A candidate file that opens and then turns out not to be text makes
  \<^verbatim>\<open>search_file\<close> return \<^verbatim>\<open>None\<close>, and the run goes on as if the file were not among
  the candidates: same output, same messages, same exit. A candidate file that
  cannot be opened makes \<^verbatim>\<open>search_file\<close> raise the error of \<^verbatim>\<open>open\<close>, and the run
  ends with an uncaught error before anything is printed.
\<close>

theorem undecodable_file_skipped:
  "(open_file w p = Inr items \<and> Undecodable \<in> set items
      \<longrightarrow> search_file w p = Inr None \<and> report w (xs @ p # ys) = report w (xs @ ys))
   \<and> (open_file w p = Inl e
      \<longrightarrow> search_file w p = Inl e \<and> (\<exists>e'. report w (xs @ p # ys) = crash [] e'))"
  using search_file_undecodable [of w p items] search_file_unopenable [of w p e]
    report_skip [of w p xs ys] report_raises [of w p _ xs ys]
  by blast

text \<open>
  C4. A candidate file for which \<^verbatim>\<open>search_file\<close> returns \<^verbatim>\<open>None\<close> (it is no text) or
  a result without todos leaves the run as it is without that file, so nothing is
  printed for it; and every result kept for printing has a todo.
\<close>

theorem empty_reports_not_printed:
  assumes "search_file w p = Inr None \<or> (\<exists>r. search_file w p = Inr (Some r) \<and> todos r = [])"
  shows "report w (xs @ p # ys) = report w (xs @ ys)
       \<and> list_all (\<lambda>res. todos res \<noteq> []) (retained rs)"
  using report_skip [OF assms] retained_nonempty by blast

lemma mem_parents:
  "other \<in> set (parents p)
   \<longleftrightarrow> root other = root p \<and> strict_prefix (parts other) (parts p)"
proof
  assume "other \<in> set (parents p)"
  then obtain k where k: "k < length (parts p)" "other = Path (root p) (take k (parts p))"
    by (auto simp: parents_def)
  then show "root other = root p \<and> strict_prefix (parts other) (parts p)"
    by (auto simp: strict_prefix_def take_is_prefix)
next
  assume a: "root other = root p \<and> strict_prefix (parts other) (parts p)"
  then have "parts other = take (length (parts other)) (parts p)"
    and "length (parts other) < length (parts p)"
    by (auto simp: strict_prefix_def prefix_def dest: prefix_length_less)
  moreover have "other = Path (root other) (parts other)" by simp
  ultimately show "other \<in> set (parents p)"
    using a unfolding parents_def
    by (auto simp: image_iff intro!: bexI [of _ "length (parts other)"])
qed

lemma relative_to_prefix:
  "relative_to p hm
   = (if root hm = root p \<and> prefix (parts hm) (parts p)
      then Inr (Path [] (drop (length (parts hm)) (parts p)))
      else Inl ValueError)"
proof -
  have "hm = p \<or> hm \<in> set (parents p) \<longleftrightarrow> root hm = root p \<and> prefix (parts hm) (parts p)"
    unfolding mem_parents by (auto simp: prefix_order.le_less path.expand)
  then show ?thesis by (simp add: relative_to_def)
qed

lemma str_join_lines:
  "xs \<noteq> [] \<Longrightarrow> str_join [10] xs @ [10] = concat (map (\<lambda>x. x @ [10]) xs)"
proof (induction xs)
  case Nil
  then show ?case by simp
next
  case (Cons x xs)
  then show ?case by (cases xs) simp_all
qed

lemma str_of_nat_value: "foldl (\<lambda>a d. 10 * a + (d - 48)) 0 (str_of_nat n) = n"
proof (induction n rule: str_of_nat.induct)
  case (1 n)
  show ?case
  proof (cases "n < 10")
    case True
    then show ?thesis by (subst str_of_nat.simps) simp
  next
    case False
    with 1 show ?thesis by (subst str_of_nat.simps) simp
  qed
qed

lemma SearchResult_str_block:
  assumes "todos r \<noteq> []"
  shows "SearchResult_str hm r = (if under hm r then Inr (butlast (block hm r)) else Inl ValueError)"
    and "under hm r \<Longrightarrow> butlast (block hm r) @ [10] = block hm r"
proof -
  let ?name = "str_of_path (Path [] (drop (length (parts hm)) (parts (file' r))))"
  have b: "block hm r = str_join [10] (map (format_todo ?name) (todos r)) @ [10]"
    using assms
    by (simp add: str_join_lines block_def format_todo_def ljust_def comp_def case_prod_unfold)
  show "SearchResult_str hm r = (if under hm r then Inr (butlast (block hm r)) else Inl ValueError)"
    by (simp add: SearchResult_str_def relative_to_prefix under_def b)
  show "butlast (block hm r) @ [10] = block hm r"
    by (simp add: b)
qed

lemma print_results_blocks:
  assumes "list_all (\<lambda>res. todos res \<noteq> []) rs"
  shows "print_results hm rs out
         = (if list_all (under hm) rs
            then \<lparr>stdout = out @ concat (map (block hm) rs), stderr = [], exit_code = 0,
                  uncaught = None\<rparr>
            else crash (out @ concat (map (block hm) (takeWhile (under hm) rs))) ValueError)"
  using assms
proof (induction rs arbitrary: out)
  case Nil
  show ?case by simp
next
  case (Cons r rs)
  then have r: "todos r \<noteq> []" and rs: "list_all (\<lambda>res. todos res \<noteq> []) rs" by simp_all
  show ?case
  proof (cases "under hm r")
    case True
    with SearchResult_str_block [OF r, of hm] Cons.IH [OF rs] show ?thesis by simp
  next
    case False
    with SearchResult_str_block(1) [OF r, of hm] show ?thesis by simp
  qed
qed

text \<open>
  C8. The results kept are printed in their order. When the file of each is the
  home directory or below it, the output is, for each result and each of its todos
  in order, one line: the tag padded with spaces to 7 characters, a space, the path
  relative to the home directory, a colon, the line number in decimal padded with
  spaces to 4 characters, a space, and the text. Otherwise the run ends with an
  uncaught \<^verbatim>\<open>ValueError\<close> at the first result whose file is not below the home
  directory, after the lines of the results before it.
\<close>

theorem reporter_lines:
  "print_results hm (retained rs) []
   = (if list_all (under hm) (retained rs)
      then \<lparr>stdout = concat (map (block hm) (retained rs)), stderr = [], exit_code = 0,
            uncaught = None\<rparr>
      else crash (concat (map (block hm) (takeWhile (under hm) (retained rs)))) ValueError)
   \<and> foldl (\<lambda>a d. 10 * a + (d - 48)) 0 (str_of_nat k) = k"
  using print_results_blocks [OF retained_nonempty, of hm rs "[]"] str_of_nat_value by simp

lemmas home_world_simps =
  home_world_def home_tree_def tree_fs_def py_def os_path_exists_def path_of_str_def
  splitroot_def path_exists_def parents_def child_def str_of_path_def open_file_def

lemma home_world_no_repo: "current_git_repo (home_world v) = None"
  by (simp add: current_git_repo_def home_world_simps)

lemma open_plain: "open_file (home_world v) plain_path = Inr [Line (py ''nothing here'' @ [10])]"
  by (simp add: plain_path_def home_world_simps)

lemma open_bin:
  "open_file (home_world v) bin_path = Inr [Line (py ''  # @TODO lost'' @ [10]), Undecodable]"
  by (simp add: bin_path_def home_world_simps)

lemma open_key: "open_file (home_world v) key_path = Inl PermissionError"
  by (simp add: key_path_def home_world_simps)

lemma open_x: "open_file (home_world v) x_path = Inr [Line (py '' * @XXX  '')]"
  by (simp add: x_path_def home_world_simps)

lemma find_files_u:
  "find_files (home_world v) u_path = Inr [notes_path, plain_path, bin_path]"
  by (simp add: find_files_def u_path_def notes_path_def plain_path_def bin_path_def
      home_world_simps notes_txt_def)

lemma find_files_secret:
  "find_files (home_world v) (Path [47] [py ''secret''])
   = Inr [key_path, Path [47] [py ''secret'', py ''todo.txt'']]"
  by (simp add: find_files_def key_path_def home_world_simps)

lemma find_files_srv: "find_files (home_world v) (Path [47] [py ''srv'']) = Inr [x_path]"
  by (simp add: find_files_def x_path_def home_world_simps)

lemma scan_roots_u: "scan_roots (home_world (Some (py ''/home/u''))) = Inr [u_path]"
  by (simp add: scan_roots_def home_world_no_repo todo_paths_def u_path_def)
     (simp add: home_world_simps)

lemma scan_roots_secret:
  "scan_roots (home_world (Some (py ''/secret''))) = Inr [Path [47] [py ''secret'']]"
  by (simp add: scan_roots_def home_world_no_repo todo_paths_def)
     (simp add: home_world_simps)

lemma scan_roots_srv:
  "scan_roots (home_world (Some (py ''/srv''))) = Inr [Path [47] [py ''srv'']]"
  by (simp add: scan_roots_def home_world_no_repo todo_paths_def)
     (simp add: home_world_simps)

lemma search_notes: "search_file (home_world v) notes_path = Inr (Some notes_result)"
  by (simp add: search_file_def open_notes scan_notes_txt notes_result_def del: One_nat_def)

lemma search_plain:
  "search_file (home_world v) plain_path = Inr (Some \<lparr>file' = plain_path, todos = []\<rparr>)"
proof -
  have "re_search todo_regex (py ''nothing here'' @ [10]) = None"
    by (rule line_not_annotated) (simp add: run_after_bol py_def is_space_def)
  then show ?thesis by (simp add: search_file_def open_plain)
qed

lemma search_bin: "search_file (home_world v) bin_path = Inr None"
  by (rule search_file_undecodable [OF open_bin]) simp

lemma search_key: "search_file (home_world v) key_path = Inl PermissionError"
  by (rule search_file_unopenable [OF open_key])

lemma search_x:
  "search_file (home_world v) x_path = Inr (Some \<lparr>file' = x_path, todos = [(1, py ''@XXX'', [])]\<rparr>)"
proof -
  have "annotated (py '' * @XXX  '') (py ''@XXX'') (py '' '')"
    unfolding annotated_def
    by (rule exI [of _ "py '' ''"], rule exI [of _ "py ''*''"], rule exI [of _ "py '' ''"],
        rule exI [of _ "py ''XXX''"], rule exI [of _ "py '' ''"])
       (simp add: py_def is_space_def comment_tokens_def)
  from scan_step_annotated [OF this, of "[]" 1 "[]"]
  have "scan [Line (py '' * @XXX  '')] 1 [] = Some [(1, py ''@XXX'', [])]"
    by (simp add: str_strip_def py_def is_space_def del: scan.simps(3))
  then show ?thesis by (simp add: search_file_def open_x del: One_nat_def)
qed

lemma str_of_nat_1: "str_of_nat (Suc 0) = [49]" and str_of_nat_3: "str_of_nat 3 = [51]"
  by (subst str_of_nat.simps, simp)+

lemma replicate_small: "replicate 2 x = [x, x]" "replicate 3 x = [x, x, x]"
  by (simp_all add: numeral_2_eq_2 numeral_3_eq_3)

lemma notes_result_todos: "todos notes_result \<noteq> []"
  by (simp add: notes_result_def)

lemma print_notes:
  "print_results (home (home_world v)) [notes_result] []
   = \<lparr>stdout = py ''@TODO   notes.txt:1    fix this later'' @ [10]
               @ py ''@FIXME  notes.txt:3    broken on windows'' @ [10],
      stderr = [], exit_code = 0, uncaught = None\<rparr>"
  by (simp add: SearchResult_str_def relative_to_prefix notes_result_def notes_path_def
      home_world_def format_todo_def ljust_def str_of_nat_1 str_of_nat_3 str_of_path_def py_def
      replicate_small)

lemma report_u:
  "report (home_world v) [notes_path, plain_path, bin_path]
   = \<lparr>stdout = py ''@TODO   notes.txt:1    fix this later'' @ [10]
               @ py ''@FIXME  notes.txt:3    broken on windows'' @ [10],
      stderr = [], exit_code = 0, uncaught = None\<rparr>"
  by (simp add: report_def search_notes search_plain search_bin retained_Cons retained_Nil
      notes_result_todos print_notes del: print_results.simps)

lemma main_u:
  "main (home_world (Some (py ''/home/u'')))
   = \<lparr>stdout = py ''@TODO   notes.txt:1    fix this later'' @ [10]
               @ py ''@FIXME  notes.txt:3    broken on windows'' @ [10],
      stderr = [], exit_code = 0, uncaught = None\<rparr>"
  by (simp add: main_def scan_roots_u find_files_u report_u)

lemma main_secret: "main (home_world (Some (py ''/secret''))) = crash [] PermissionError"
  by (simp add: main_def scan_roots_secret find_files_secret report_def search_key)

lemma main_srv: "main (home_world (Some (py ''/srv''))) = crash [] ValueError"
  by (simp add: main_def scan_roots_srv find_files_srv report_def search_x retained_Cons
      retained_Nil)
     (simp add: SearchResult_str_def relative_to_prefix x_path_def home_world_def py_def)

theorem undecodable_file_skipped_witness:
  "open_file (home_world None) bin_path = Inr [Line (py ''  # @TODO lost'' @ [10]), Undecodable]
   \<and> search_file (home_world None) bin_path = Inr None
   \<and> report (home_world None) [notes_path, plain_path, bin_path]
       = report (home_world None) [notes_path, plain_path]
   \<and> open_file (home_world None) key_path = Inl PermissionError
   \<and> search_file (home_world None) key_path = Inl PermissionError"
  using undecodable_file_skipped [of "home_world None" bin_path
      "[Line (py ''  # @TODO lost'' @ [10]), Undecodable]" "[notes_path, plain_path]" "[]"
      PermissionError]
    undecodable_file_skipped [of "home_world None" key_path "[]" "[]" "[]" PermissionError]
    open_bin [of None] open_key [of None]
  by simp

text \<open>
  C2 as it is written also has a file that cannot be opened skipped. With
  \<^verbatim>\<open>TODO_PATH=/secret\<close> the candidates are \<^verbatim>\<open>/secret/key\<close>, which cannot be opened,
  and the annotated \<^verbatim>\<open>/secret/todo.txt\<close>: the run ends with the uncaught
  \<^verbatim>\<open>PermissionError\<close> and prints nothing.
\<close>

theorem unopenable_file_counterexample:
  "find_files (home_world (Some (py ''/secret''))) (Path [47] [py ''secret''])
     = Inr [key_path, Path [47] [py ''secret'', py ''todo.txt'']]
   \<and> open_file (home_world (Some (py ''/secret''))) key_path = Inl PermissionError
   \<and> main (home_world (Some (py ''/secret'')))
       = \<lparr>stdout = [], stderr = [], exit_code = 1, uncaught = Some PermissionError\<rparr>"
  by (simp add: find_files_secret open_key main_secret crash_def)

theorem empty_reports_not_printed_witness:
  "search_file (home_world None) plain_path = Inr (Some \<lparr>file' = plain_path, todos = []\<rparr>)
   \<and> report (home_world None) [notes_path, plain_path, bin_path]
       = report (home_world None) [notes_path, bin_path]
   \<and> stdout (report (home_world None) [notes_path, plain_path, bin_path])
       = py ''@TODO   notes.txt:1    fix this later'' @ [10]
         @ py ''@FIXME  notes.txt:3    broken on windows'' @ [10]"
proof -
  have "search_file (home_world None) plain_path = Inr None
        \<or> (\<exists>r. search_file (home_world None) plain_path = Inr (Some r) \<and> todos r = [])"
    by (simp add: search_plain)
  from empty_reports_not_printed [OF this, of "[notes_path]" "[bin_path]" "[]"]
  have eq: "report (home_world None) [notes_path, plain_path, bin_path]
            = report (home_world None) [notes_path, bin_path]"
    by simp
  show ?thesis
  proof (intro conjI)
    show "search_file (home_world None) plain_path
          = Inr (Some \<lparr>file' = plain_path, todos = []\<rparr>)"
      by (rule search_plain)
    show "report (home_world None) [notes_path, plain_path, bin_path]
          = report (home_world None) [notes_path, bin_path]"
      by (rule eq)
    show "stdout (report (home_world None) [notes_path, plain_path, bin_path])
          = py ''@TODO   notes.txt:1    fix this later'' @ [10]
            @ py ''@FIXME  notes.txt:3    broken on windows'' @ [10]"
      by (simp add: report_u)
  qed
qed

theorem reporter_lines_witness:
  "print_results (home (home_world None)) (retained [Some notes_result, None]) []
     = \<lparr>stdout = py ''@TODO   notes.txt:1    fix this later'' @ [10]
                 @ py ''@FIXME  notes.txt:3    broken on windows'' @ [10],
        stderr = [], exit_code = 0, uncaught = None\<rparr>
   \<and> list_all (under (home (home_world None))) (retained [Some notes_result, None])
   \<and> main (home_world (Some (py ''/srv'')))
       = \<lparr>stdout = [], stderr = [], exit_code = 1, uncaught = Some ValueError\<rparr>"
proof -
  have r: "retained [Some notes_result, None] = [notes_result]"
    by (simp add: retained_Cons retained_Nil notes_result_todos)
  have u: "under (home (home_world None)) notes_result"
    by (simp add: under_def notes_result_def notes_path_def home_world_def)
  show ?thesis
    using reporter_lines [of "home (home_world None)" "[Some notes_result, None]" 3]
      print_notes [of None] main_srv u
    by (simp add: r crash_def del: print_results.simps)
qed

section \<open>The file enumerator: what it collects\<close>

lemma files_iterdir:
  "iterdir p n = Inr items \<Longrightarrow> files_below p n = concat (map item_files items)"
proof (induction n arbitrary: items)
  case (Dir xs)
  then show ?case
    by (auto simp: item_files_def comp_def case_prod_unfold intro!: arg_cong [where f = concat])
qed auto

lemma listable_iterdir:
  "listable n \<longleftrightarrow> (\<exists>items. iterdir p n = Inr items
       \<and> list_all (\<lambda>item. is_dir (snd item) \<longrightarrow> listable (snd item)) items)"
proof (induction n)
  case (Dir xs)
  then show ?case by (auto simp: list_all_iff)
qed auto

lemma search_files:
  "listable n \<Longrightarrow> search (p, n) res = Inr (res @ files_below p n)"
  "list_all (\<lambda>item. is_dir (snd item) \<longrightarrow> listable (snd item)) items
     \<Longrightarrow> search_items items res = Inr (res @ concat (map item_files items))"
proof (induction "(p, n)" res and items res arbitrary: p n rule: search_search_items.induct)
  case (1 p n res)
  from "1.prems" obtain items where it: "iterdir p n = Inr items"
    and all: "list_all (\<lambda>item. is_dir (snd item) \<longrightarrow> listable (snd item)) items"
    using listable_iterdir [of n p] by blast
  from "1.hyps" [OF it all] show ?case
    by (simp add: it files_iterdir [OF it])
next
  case (2 res)
  show ?case by simp
next
  case (3 item n rest res)
  then show ?case by (auto simp: item_files_def)
qed


lemma is_dir_resolve: "is_dir n \<longleftrightarrow> (\<exists>items. resolve n = Dir items) \<or> resolve n = Locked"
  by (induction n) auto

lemma is_file_resolve: "is_file n \<longleftrightarrow> (\<exists>items. resolve n = File items) \<or> resolve n = Unreadable"
  by (induction n) auto

lemma dir_not_file: "is_dir n \<Longrightarrow> \<not> is_file n"
  by (auto simp: is_dir_resolve is_file_resolve)

lemma reaches_Cons:
  "reaches n (name # names) m
   \<longleftrightarrow> (\<exists>items c. resolve n = Dir items \<and> (name, c) \<in> set items \<and> reaches c names m)"
  by (subst reaches.simps) auto

lemma reaches_Nil: "reaches n [] m \<longleftrightarrow> m = n"
  by (subst reaches.simps) auto

lemma child_append: "child (Path r ps) name = Path r (ps @ [name])"
  by (simp add: child_def)

lemma path_below_child:
  "Path (root (child p name)) (parts (child p name) @ names) = Path (root p) (parts p @ name # names)"
  by (simp add: child_def)

lemma files_set:
  "q \<in> set (files_below p n)
   \<longleftrightarrow> (\<exists>names m. names \<noteq> [] \<and> q = Path (root p) (parts p @ names)
                  \<and> reaches n names m \<and> is_file m)"
proof (induction p n arbitrary: q rule: files_below.induct)
  case (1 p items)
  show ?case
  proof
    assume "q \<in> set (files_below p (Dir items))"
    then obtain item where item: "item \<in> set items"
      and q: "q \<in> set (if is_dir (snd item) then files_below (child p (fst item)) (snd item)
                        else if is_file (snd item) then [child p (fst item)] else [])"
      by auto
    have mem: "(fst item, snd item) \<in> set items" using item by simp
    show "\<exists>names m. names \<noteq> [] \<and> q = Path (root p) (parts p @ names)
                  \<and> reaches (Dir items) names m \<and> is_file m"
    proof (cases "is_dir (snd item)")
      case True
      with q "1.IH" [OF item True] obtain names m where
        qq: "q = Path (root (child p (fst item))) (parts (child p (fst item)) @ names)"
        and rr: "reaches (snd item) names m" and mm: "is_file m"
        by auto
      have "reaches (Dir items) (fst item # names) m"
        by (rule reaches.down [OF _ mem rr]) simp
      moreover have "q = Path (root p) (parts p @ fst item # names)"
        using qq by (simp add: path_below_child)
      ultimately show ?thesis using mm by blast
    next
      case False
      with q have "is_file (snd item)" "q = child p (fst item)"
        by (auto split: if_splits)
      then have ff: "is_file (snd item)" and "q = Path (root p) (parts p @ [fst item])"
        by (simp_all add: child_def)
      moreover have "reaches (Dir items) [fst item] (snd item)"
        by (rule reaches.down [OF _ mem reaches.here]) simp
      ultimately show ?thesis by blast
    qed
  next
    assume "\<exists>names m. names \<noteq> [] \<and> q = Path (root p) (parts p @ names)
                  \<and> reaches (Dir items) names m \<and> is_file m"
    then obtain name rest m c where q: "q = Path (root p) (parts p @ name # rest)"
      and c: "(name, c) \<in> set items" and r: "reaches c rest m" and m: "is_file m"
      by (auto simp: neq_Nil_conv reaches_Cons)
    show "q \<in> set (files_below p (Dir items))"
    proof (cases "is_dir c")
      case True
      have "rest \<noteq> []"
        using r m True dir_not_file by (auto simp: reaches_Nil)
      with r m have "q \<in> set (files_below (child p name) c)"
        using "1.IH" [of "(name, c)" q] c True q by (auto simp: path_below_child)
      with c True show ?thesis by force
    next
      case False
      then have "\<forall>items. resolve c \<noteq> Dir items" by (simp add: is_dir_resolve)
      with r have "rest = []" "m = c"
        by (cases rest; auto simp: reaches_Cons reaches_Nil)+
      with m q have "is_file c" "q = child p name" by (simp_all add: child_def)
      with c False show ?thesis by force
    qed
  qed
next
  case (2 p t)
  have "reaches (Link t) names m \<longleftrightarrow> reaches t names m" if "names \<noteq> []" for names m
    using that by (cases names) (auto simp: reaches_Cons)
  with 2 show ?case by auto
qed (auto simp: neq_Nil_conv reaches_Cons)


lemma files_parts:
  assumes "q \<in> set (files_below p n)"
  shows "\<exists>name rest. parts q = parts p @ name # rest"
  using assms unfolding files_set by (auto simp: neq_Nil_conv)

lemma distinct_concat_keyed:
  assumes "distinct (map fst items)"
    and "\<And>item. item \<in> set items \<Longrightarrow> distinct (F item)"
    and "\<And>item q. item \<in> set items \<Longrightarrow> q \<in> set (F item) \<Longrightarrow> key q = fst item"
  shows "distinct (concat (map F items))"
  using assms
proof (induction items)
  case Nil
  show ?case by simp
next
  case (Cons a items)
  have "set (F a) \<inter> set (concat (map F items)) = {}"
  proof (rule ccontr)
    assume "set (F a) \<inter> set (concat (map F items)) \<noteq> {}"
    then obtain q item where "q \<in> set (F a)" "item \<in> set items" "q \<in> set (F item)"
      by auto
    then have "fst a = fst item"
      using Cons.prems(3) [of a q] Cons.prems(3) [of item q] by simp
    with \<open>item \<in> set items\<close> Cons.prems(1) show False by force
  qed
  moreover have "distinct (concat (map F items))"
    using Cons by simp
  ultimately show ?case using Cons.prems(2) by simp
qed

lemma files_distinct: "wf_names n \<Longrightarrow> distinct (files_below p n)"
proof (induction p n rule: files_below.induct)
  case (1 p items)
  let ?F = "\<lambda>item. if is_dir (snd item) then files_below (child p (fst item)) (snd item)
                    else if is_file (snd item) then [child p (fst item)] else []"
  have d: "distinct (map fst items)" and wf: "\<And>item. item \<in> set items \<Longrightarrow> wf_names (snd item)"
    using "1.prems" by (simp_all add: list_all_iff)
  have "distinct (concat (map ?F items))"
  proof (rule distinct_concat_keyed [where key = "\<lambda>q. parts q ! length (parts p)", OF d])
    fix item assume "item \<in> set items"
    then show "distinct (?F item)" using "1.IH" wf by simp
  next
    fix item q assume "item \<in> set items" and q: "q \<in> set (?F item)"
    show "parts q ! length (parts p) = fst item"
    proof (cases "is_dir (snd item)")
      case True
      with q files_parts [of q "child p (fst item)" "snd item"] show ?thesis
        by (auto simp: child_def nth_append)
    next
      case False
      with q show ?thesis by (auto simp: child_def split: if_splits)
    qed
  qed
  then show ?case by simp
qed simp_all

lemma search_raises:
  "\<not> listable n \<Longrightarrow> \<exists>e. search (p, n) res = Inl e"
  "\<not> list_all (\<lambda>item. is_dir (snd item) \<longrightarrow> listable (snd item)) items
     \<Longrightarrow> \<exists>e. search_items items res = Inl e"
proof (induction "(p, n)" res and items res arbitrary: p n rule: search_search_items.induct)
  case (1 p n res)
  show ?case
  proof (cases "iterdir p n")
    case (Inl e)
    then show ?thesis by simp
  next
    case (Inr items)
    with "1.prems" listable_iterdir [of n p]
    have "\<not> list_all (\<lambda>item. is_dir (snd item) \<longrightarrow> listable (snd item)) items"
      by auto
    from "1.hyps" [OF Inr this] Inr show ?thesis by simp
  qed
next
  case (2 res)
  then show ?case by simp
next
  case (3 item n rest res)
  show ?case
  proof (cases "is_dir n")
    case True
    show ?thesis
    proof (cases "listable n")
      case False
      from "3.hyps"(1) [OF True False] True show ?thesis by auto
    next
      case l: True
      with "3.prems" have rest: "\<not> list_all (\<lambda>item. is_dir (snd item) \<longrightarrow> listable (snd item)) rest"
        by simp
      from search_files(1) [OF l] have s: "search (item, n) res = Inr (res @ files_below item n)" .
      from "3.hyps"(2) [OF True s rest] True s show ?thesis by simp
    qed
  next
    case False
    with "3.prems" have rest: "\<not> list_all (\<lambda>item. is_dir (snd item) \<longrightarrow> listable (snd item)) rest"
      by simp
    show ?thesis
    proof (cases "is_file n")
      case True
      from "3.hyps"(3) [OF False True rest] False True show ?thesis by simp
    next
      case f: False
      from "3.hyps"(4) [OF False f rest] False f show ?thesis by simp
    qed
  qed
qed

text \<open>
  C7, amended. For a scan root in which no directory holds a name twice: when the
  root and the directories below it can be listed, \<^verbatim>\<open>find_files\<close> returns, each
  exactly once, the paths below the root that lead through directories and links to
  directories to a regular file or to a link to a regular file; an entry that is, or
  resolves to, neither a directory nor a regular file (a dangling link, a socket, a
  device) gives no path. When a directory on the way cannot be listed, or the root
  is no directory, \<^verbatim>\<open>find_files\<close> raises.
\<close>

theorem find_files_collects:
  assumes "fs w (str_of_path directory) = Some n" and "wf_names n"
  shows "(listable n \<longrightarrow>
            (\<exists>res. find_files w directory = Inr res \<and> distinct res
               \<and> set res = {Path (root directory) (parts directory @ names) | names m.
                              names \<noteq> [] \<and> reaches n names m \<and> is_file m}))
       \<and> (\<not> listable n \<longrightarrow> (\<exists>e. find_files w directory = Inl e))"
proof (intro conjI impI)
  assume "listable n"
  from search_files(1) [OF this, of directory "[]"] assms(1)
  have "find_files w directory = Inr (files_below directory n)"
    by (simp add: find_files_def)
  moreover have "distinct (files_below directory n)"
    using assms(2) by (rule files_distinct)
  moreover have "set (files_below directory n)
       = {Path (root directory) (parts directory @ names) | names m.
            names \<noteq> [] \<and> reaches n names m \<and> is_file m}"
    using files_set [of _ directory n] by blast
  ultimately show "\<exists>res. find_files w directory = Inr res \<and> distinct res
               \<and> set res = {Path (root directory) (parts directory @ names) | names m.
                              names \<noteq> [] \<and> reaches n names m \<and> is_file m}"
    by blast
next
  assume "\<not> listable n"
  from search_raises(1) [OF this, of directory "[]"] assms(1)
  show "\<exists>e. find_files w directory = Inl e"
    by (simp add: find_files_def)
qed


lemma fs_link_r: "fs link_world (str_of_path (Path [47] [py ''r''])) = Some link_dir"
  by (simp add: link_world_def link_tree_def tree_fs_def str_of_path_def path_of_str_def py_def)

lemma fs_link_k:
  "fs link_world (str_of_path (Path [47] [py ''k''])) = Some (Dir [(py ''in'', Locked)])"
  by (simp add: link_world_def link_tree_def tree_fs_def str_of_path_def path_of_str_def py_def)

lemma find_files_link_r:
  "find_files link_world (Path [47] [py ''r''])
   = Inr [Path [47] [py ''r'', py ''a''], Path [47] [py ''r'', py ''l''],
          Path [47] [py ''r'', py ''d'', py ''x''], Path [47] [py ''r'', py ''ld'', py ''y'']]"
  by (simp add: find_files_def fs_link_r) (simp add: link_dir_def child_def)

theorem find_files_collects_witness:
  "fs link_world (str_of_path (Path [47] [py ''r''])) = Some link_dir
   \<and> wf_names link_dir \<and> listable link_dir
   \<and> find_files link_world (Path [47] [py ''r''])
       = Inr [Path [47] [py ''r'', py ''a''], Path [47] [py ''r'', py ''l''],
              Path [47] [py ''r'', py ''d'', py ''x''], Path [47] [py ''r'', py ''ld'', py ''y'']]
   \<and> distinct [Path [47] [py ''r'', py ''a''], Path [47] [py ''r'', py ''l''],
               Path [47] [py ''r'', py ''d'', py ''x''], Path [47] [py ''r'', py ''ld'', py ''y'']]
   \<and> wf_names (Dir [(py ''in'', Locked)]) \<and> \<not> listable (Dir [(py ''in'', Locked)])
   \<and> find_files link_world (Path [47] [py ''k'']) = Inl PermissionError"
proof -
  have wf: "wf_names link_dir" by (simp add: link_dir_def py_def)
  have l: "listable link_dir" by (simp add: link_dir_def)
  from find_files_collects [OF fs_link_r wf] l obtain res where
    "find_files link_world (Path [47] [py ''r'']) = Inr res" "distinct res"
    by blast
  then have d: "distinct [Path [47] [py ''r'', py ''a''], Path [47] [py ''r'', py ''l''],
               Path [47] [py ''r'', py ''d'', py ''x''], Path [47] [py ''r'', py ''ld'', py ''y'']]"
    by (simp add: find_files_link_r)
  have k: "find_files link_world (Path [47] [py ''k'']) = Inl PermissionError"
    by (simp add: find_files_def fs_link_k)
  show ?thesis
    using fs_link_r wf l find_files_link_r d k by simp
qed

text \<open>
  C7 as it is written has symbolic links left out of the result. Under \<^verbatim>\<open>/r\<close> the
  entry \<^verbatim>\<open>l\<close> is a link to a file and \<^verbatim>\<open>ld\<close> a link to a directory: the result holds
  \<^verbatim>\<open>/r/l\<close>, and \<^verbatim>\<open>/r/ld/y\<close> from behind the link.
\<close>

theorem symlink_collected_counterexample:
  "find_files link_world (Path [47] [py ''r''])
     = Inr [Path [47] [py ''r'', py ''a''], Path [47] [py ''r'', py ''l''],
            Path [47] [py ''r'', py ''d'', py ''x''], Path [47] [py ''r'', py ''ld'', py ''y'']]
   \<and> descend link_tree [py ''r'', py ''l''] = Some (Link (File []))
   \<and> descend link_tree [py ''r'', py ''ld''] = Some (Link (Dir [(py ''y'', File [])]))"
  by (simp add: find_files_link_r) (simp add: link_tree_def link_dir_def py_def)

section \<open>The path resolver: the repository above the working directory\<close>

lemma chain_ancestors:
  "cwd w # parents (cwd w) = map (ancestor w) (rev [0..<Suc (length (parts (cwd w)))])"
  by (simp add: parents_def ancestor_def)

lemma chain_set:
  "p \<in> set (cwd w # parents (cwd w)) \<longleftrightarrow> (\<exists>j \<le> length (parts (cwd w)). p = ancestor w j)"
  unfolding chain_ancestors by (auto simp: less_Suc_eq_le simp del: upt_Suc)

lemma find_nearest:
  assumes "k \<le> n" and "P (f k)" and "\<forall>j. k < j \<and> j \<le> n \<longrightarrow> \<not> P (f j)"
  shows "find P (map f (rev [0..<Suc n])) = Some (f k)"
  using assms
proof (induction n)
  case 0
  then show ?case by simp
next
  case (Suc n)
  show ?case
  proof (cases "k = Suc n")
    case True
    with Suc.prems show ?thesis by simp
  next
    case False
    with Suc.prems have "k \<le> n" "\<not> P (f (Suc n))" "\<forall>j. k < j \<and> j \<le> n \<longrightarrow> \<not> P (f j)"
      by auto
    with Suc.IH [OF this(1) Suc.prems(2) this(3)] show ?thesis by simp
  qed
qed

lemma path_exists_todo_path [simp]:
  "path_exists (w\<lparr>todo_path := v\<rparr>) p = path_exists w p"
  by (simp add: path_exists_def os_path_exists_def)

lemma current_git_repo_todo_path [simp]:
  "current_git_repo (w\<lparr>todo_path := v\<rparr>) = current_git_repo w"
  by (simp add: current_git_repo_def)

lemma is_dir_exists: "is_dir n \<Longrightarrow> node_exists n"
  by (induction n) auto

lemma path_is_dir_exists: "path_is_dir w p \<Longrightarrow> path_exists w p"
  by (auto simp: path_is_dir_def path_exists_def os_path_exists_def is_dir_exists
      split: option.splits)

lemma find_files_todo_path [simp]: "find_files (w\<lparr>todo_path := v\<rparr>) = find_files w"
  by (rule ext) (simp add: find_files_def)

lemma search_file_todo_path [simp]: "search_file (w\<lparr>todo_path := v\<rparr>) = search_file w"
  by (rule ext) (simp add: search_file_def open_file_def)

lemma report_todo_path [simp]: "report (w\<lparr>todo_path := v\<rparr>) = report w"
  by (rule ext) (simp add: report_def split: sum.splits)

text \<open>
  C5, amended. Of the directories from the working directory up to the root, the
  nearest one that has an entry \<^verbatim>\<open>.git\<close> that exists, of whatever kind, is the single
  scan root, and then neither the roots nor the run depend on \<^verbatim>\<open>TODO_PATH\<close>. The
  variable decides the roots only when none of these directories has such an entry;
  so it does not when one of them has a subdirectory \<^verbatim>\<open>.git\<close>.
\<close>

theorem nearest_git_entry:
  "(k \<le> length (parts (cwd w)) \<and> path_exists w (child (ancestor w k) (py ''.git''))
      \<and> (\<forall>j. k < j \<and> j \<le> length (parts (cwd w))
             \<longrightarrow> \<not> path_exists w (child (ancestor w j) (py ''.git'')))
     \<longrightarrow> scan_roots w = Inr [ancestor w k]
       \<and> scan_roots (w\<lparr>todo_path := v\<rparr>) = scan_roots w
       \<and> main (w\<lparr>todo_path := v\<rparr>) = main w)
   \<and> ((\<forall>j \<le> length (parts (cwd w)). \<not> path_exists w (child (ancestor w j) (py ''.git'')))
     \<longrightarrow> scan_roots w = todo_paths w)
   \<and> ((\<exists>j \<le> length (parts (cwd w)). path_is_dir w (child (ancestor w j) (py ''.git'')))
     \<longrightarrow> scan_roots (w\<lparr>todo_path := v\<rparr>) = scan_roots w)"
proof (intro conjI impI)
  assume a: "k \<le> length (parts (cwd w)) \<and> path_exists w (child (ancestor w k) (py ''.git''))
      \<and> (\<forall>j. k < j \<and> j \<le> length (parts (cwd w))
             \<longrightarrow> \<not> path_exists w (child (ancestor w j) (py ''.git'')))"
  have repo: "current_git_repo w = Some (ancestor w k)"
    unfolding current_git_repo_def chain_ancestors
    using a by (intro find_nearest) auto
  then show "scan_roots w = Inr [ancestor w k]"
    by (simp add: scan_roots_def)
  from repo show "scan_roots (w\<lparr>todo_path := v\<rparr>) = scan_roots w"
    by (simp add: scan_roots_def)
  then show "main (w\<lparr>todo_path := v\<rparr>) = main w"
    by (simp add: main_def split: sum.splits prod.splits)
next
  assume "\<forall>j \<le> length (parts (cwd w)). \<not> path_exists w (child (ancestor w j) (py ''.git''))"
  then have "current_git_repo w = None"
    unfolding current_git_repo_def find_None_iff chain_set by auto
  then show "scan_roots w = todo_paths w"
    by (simp add: scan_roots_def)
next
  assume "\<exists>j \<le> length (parts (cwd w)). path_is_dir w (child (ancestor w j) (py ''.git''))"
  then obtain j where "j \<le> length (parts (cwd w))"
    "path_exists w (child (ancestor w j) (py ''.git''))"
    using path_is_dir_exists by blast
  then have "current_git_repo w \<noteq> None"
    unfolding current_git_repo_def find_None_iff chain_set by auto
  then show "scan_roots (w\<lparr>todo_path := v\<rparr>) = scan_roots w"
    by (auto simp: scan_roots_def)
qed


lemmas git_world_simps =
  git_world_def git_tree_def tree_fs_def py_def os_path_exists_def path_of_str_def
  splitroot_def path_exists_def path_is_dir_def parents_def child_def str_of_path_def
  ancestor_def

lemma git_world_update: "(git_world u)\<lparr>todo_path := v\<rparr> = git_world v"
  by (simp add: git_world_def)

lemma scan_roots_git: "scan_roots (git_world v) = Inr [Path [47] [py ''repo'', py ''sub'']]"
  by (simp add: scan_roots_def current_git_repo_def) (simp add: git_world_simps)

theorem nearest_git_entry_witness:
  "path_exists (git_world None) (Path [47] [py ''repo'', py ''sub'', py ''.git''])
   \<and> \<not> path_exists (git_world None) (Path [47] [py ''repo'', py ''sub'', py ''src'', py ''.git''])
   \<and> scan_roots (git_world None) = Inr [Path [47] [py ''repo'', py ''sub'']]
   \<and> scan_roots (git_world (Some (py ''/repo''))) = scan_roots (git_world None)
   \<and> main (git_world (Some (py ''/repo''))) = main (git_world None)"
proof -
  have len: "length (parts (cwd (git_world None))) = 3"
    by (simp add: git_world_def)
  have e2: "path_exists (git_world None) (child (ancestor (git_world None) 2) (py ''.git''))"
    by (simp add: git_world_simps)
  have e3: "\<not> path_exists (git_world None) (child (ancestor (git_world None) 3) (py ''.git''))"
    by (simp add: git_world_simps)
  have later: "\<forall>j. 2 < j \<and> j \<le> length (parts (cwd (git_world None)))
         \<longrightarrow> \<not> path_exists (git_world None) (child (ancestor (git_world None) j) (py ''.git''))"
  proof (intro allI impI)
    fix j :: nat assume "2 < j \<and> j \<le> length (parts (cwd (git_world None)))"
    then have "j = 3" using len by simp
    with e3 show "\<not> path_exists (git_world None) (child (ancestor (git_world None) j) (py ''.git''))"
      by simp
  qed
  have a2: "ancestor (git_world None) 2 = Path [47] [py ''repo'', py ''sub'']"
    by (simp add: git_world_def ancestor_def)
  from nearest_git_entry [of 2 "git_world None" "Some (py ''/repo'')"] len e2 later
  have "scan_roots (git_world None) = Inr [ancestor (git_world None) 2]
        \<and> scan_roots (git_world (Some (py ''/repo''))) = scan_roots (git_world None)
        \<and> main (git_world (Some (py ''/repo''))) = main (git_world None)"
    by (simp add: git_world_update)
  moreover have "path_exists (git_world None) (Path [47] [py ''repo'', py ''sub'', py ''.git''])"
    using e2 by (simp add: a2 child_def)
  moreover have "\<not> path_exists (git_world None)
                    (Path [47] [py ''repo'', py ''sub'', py ''src'', py ''.git''])"
    using e3 by (simp add: git_world_def ancestor_def child_def)
  ultimately show ?thesis by (simp add: a2)
qed

text \<open>
  C5 as it is written returns the nearest directory with a subdirectory \<^verbatim>\<open>.git\<close>.
  From \<^verbatim>\<open>/repo/sub/src\<close> that is \<^verbatim>\<open>/repo\<close>, and the scan root is \<^verbatim>\<open>/repo/sub\<close>, where
  \<^verbatim>\<open>.git\<close> is a file.
\<close>

theorem git_file_counterexample:
  "cwd (git_world None) = Path [47] [py ''repo'', py ''sub'', py ''src'']
   \<and> find (\<lambda>p. path_is_dir (git_world None) (child p (py ''.git'')))
         (cwd (git_world None) # parents (cwd (git_world None)))
       = Some (Path [47] [py ''repo''])
   \<and> scan_roots (git_world None) = Inr [Path [47] [py ''repo'', py ''sub'']]"
  by (simp add: scan_roots_git) (simp add: git_world_simps)

end
